theory Spec2Isabelle
  imports Main
begin

unbundle bit_operations_syntax

section \<open>Machine integers of the queue\<close>

text \<open>
  The queue keeps its indices, its capacity and its size counter in C++ \<open>int\<close>, which
  the source assumes to be 32 bits wide (the comment at \<open>sSizeMask\<close>). A value of that
  type is modelled as an \<open>int\<close>; every arithmetic operation of the source is followed by
  \<open>int32\<close>, the reduction to the two's complement range. For the atomic
  \<open>fetch_add\<close>/\<open>fetch_sub\<close> this wrap-around is what the language defines; for the plain
  \<open>int\<close> operations it is what the hardware does where the language leaves the overflow
  undefined.
\<close>

definition INT_MAX :: int where
  "INT_MAX = 2147483647"

definition INT_MIN :: int where
  "INT_MIN = - 2147483648"

definition int32 :: "int \<Rightarrow> int" where
  "int32 x = (x + 2147483648) mod 4294967296 - 2147483648"

definition add32 :: "int \<Rightarrow> int \<Rightarrow> int" where
  "add32 a b = int32 (a + b)"

definition sub32 :: "int \<Rightarrow> int \<Rightarrow> int" where
  "sub32 a b = int32 (a - b)"

definition mul32 :: "int \<Rightarrow> int \<Rightarrow> int" where
  "mul32 a b = int32 (a * b)"

text \<open>The operator \<open>%\<close> of C++ truncates towards zero; a zero divisor is undefined.\<close>

definition rem32 :: "int \<Rightarrow> int \<Rightarrow> int option" where
  "rem32 a b = (if b = 0 then None else Some (sgn a * (\<bar>a\<bar> mod \<bar>b\<bar>)))"

text \<open>\<open>static_cast<int>\<close> of a \<open>size_t\<close>.\<close>

definition int_of_size_t :: "nat \<Rightarrow> int" where
  "int_of_size_t n = int32 (int n)"

text \<open>\<open>sSizeMask = 0x80000000\<close> stored in an \<open>int\<close>: the sign bit alone.\<close>

definition sSizeMask :: int where
  "sSizeMask = int32 2147483648"

definition sAlign :: nat where
  "sAlign = 64"

section \<open>Outcomes\<close>

text \<open>
  A call returns a value and leaves a queue behind, or it ends the process through a failed
  \<open>Assert\<close> (the message handed to \<open>Assert\<close> is kept, without its final newline; the
  value that the three-argument \<open>Assert\<close> prints after it is not), or an exception of the
  allocator passes through it (the queue it leaves behind is kept), or it runs into
  behaviour the language does not define.
\<close>

datatype ('r, 's) outcome =
    Returns 'r 's
  | Aborts string
  | Throws 's
  | Undefined_Behaviour

fun bind_outcome :: "('r, 's) outcome \<Rightarrow> ('r \<Rightarrow> 's \<Rightarrow> ('t, 's) outcome) \<Rightarrow> ('t, 's) outcome" where
  "bind_outcome (Returns r s) f = f r s"
| "bind_outcome (Aborts m) f = Aborts m"
| "bind_outcome (Throws s) f = Throws s"
| "bind_outcome Undefined_Behaviour f = Undefined_Behaviour"

section \<open>The queue\<close>

text \<open>
  The members of \<open>Queue<DataType, SPSC, Waiting>\<close>. \<open>mStorage\<close> is the address of the
  storage, \<open>nullptr\<close> being 0; \<open>mSlots\<close> is the memory at that address, one entry for each
  \<open>DataType\<close>-sized slot, \<open>None\<close> where no object has been constructed. The memory orders
  and the notifications change no member and have no counterpart here: every operation is
  one step.
\<close>

definition nullptr :: nat where
  "nullptr = 0"

record 'a Queue =
  mPushIndex :: int
  mPopIndex :: int
  mSize :: int
  mStorage :: nat
  mCapacity :: int
  mIndexEnd :: int
  mSlots :: "'a option list"

definition Queue_default :: "'a Queue" where
  "Queue_default = \<lparr>mPushIndex = 0, mPopIndex = 0, mSize = 0, mStorage = nullptr,
     mCapacity = 0, mIndexEnd = 0, mSlots = []\<rparr>"

definition Is_Allocated :: "'a Queue \<Rightarrow> bool" where
  "Is_Allocated q = (mStorage q \<noteq> nullptr)"

definition size_q :: "'a Queue \<Rightarrow> int" where
  "size_q q = (let cSize = mSize q in cSize AND (NOT sSizeMask))"

definition empty_q :: "'a Queue \<Rightarrow> bool" where
  "empty_q q = (size_q q = 0)"

subsection \<open>Helper methods\<close>

definition Bump_Index :: "'a Queue \<Rightarrow> int \<Rightarrow> int" where
  "Bump_Index q aIndex =
     (let cIncremented = add32 aIndex 1
      in if cIncremented < mIndexEnd q then cIncremented else 0)"

definition Increase_Index :: "'a Queue \<Rightarrow> int \<Rightarrow> int \<Rightarrow> int" where
  "Increase_Index q aIndex aIncrease =
     (let cNewIndex = add32 aIndex aIncrease
      in sub32 cNewIndex (if cNewIndex \<ge> mIndexEnd q then mIndexEnd q else 0))"

definition Increase_Size :: "int \<Rightarrow> 'a Queue \<Rightarrow> 'a Queue" where
  "Increase_Size aNumPushed q = q\<lparr>mSize := add32 (mSize q) aNumPushed\<rparr>"

definition Decrease_Size :: "int \<Rightarrow> 'a Queue \<Rightarrow> 'a Queue" where
  "Decrease_Size aNumPopped q = q\<lparr>mSize := sub32 (mSize q) aNumPopped\<rparr>"

subsection \<open>Memory management\<close>

text \<open>
  The allocator is the caller's: a call of its \<open>Allocate(bytes, alignment)\<close> returns an
  address (possibly \<open>nullptr\<close>) or throws, as the test allocator does.
\<close>

datatype alloc_result = Alloc_returns nat | Alloc_throws

definition Allocate ::
  "(nat \<Rightarrow> nat \<Rightarrow> alloc_result) \<Rightarrow> nat \<Rightarrow> nat \<Rightarrow> int \<Rightarrow> 'a Queue \<Rightarrow> (unit, 'a Queue) outcome" where
  "Allocate aAllocator sizeof_DataType alignof_DataType aCapacity q =
     (if \<not> \<not> Is_Allocated q then Aborts ''Can't allocate while still owning memory!''
      else if \<not> aCapacity > 0 then Aborts ''Invalid capacity {}!''
      else
        let cNumBytes = nat aCapacity * sizeof_DataType;
            sAlignment = max sAlign alignof_DataType
        in case aAllocator cNumBytes sAlignment of
             Alloc_throws \<Rightarrow> Throws q
           | Alloc_returns p \<Rightarrow>
               let q1 = q\<lparr>mStorage := p, mSlots := replicate (nat aCapacity) None\<rparr>
               in if \<not> mStorage q1 \<noteq> nullptr then Aborts ''Memory allocation failed!''
                  else
                    let q2 = q1\<lparr>mCapacity := aCapacity\<rparr>;
                        cMaxNumWrapArounds = INT_MAX div mCapacity q2
                    in if \<not> cMaxNumWrapArounds \<ge> 2 then Aborts ''Not enough wrap-arounds!''
                       else Returns () (q2\<lparr>mIndexEnd := mul32 (mCapacity q2) cMaxNumWrapArounds\<rparr>))"

text \<open>\<open>Free\<close> returns the address it hands to the allocator's \<open>Free\<close>.\<close>

definition Free :: "'a Queue \<Rightarrow> (nat, 'a Queue) outcome" where
  "Free q =
     (if \<not> Is_Allocated q then Aborts ''No memory to free!''
      else if \<not> empty_q q then Aborts ''Can't free until empty!''
      else Returns (mStorage q) (q\<lparr>mStorage := nullptr, mCapacity := 0, mSlots := []\<rparr>))"

subsection \<open>Single elements\<close>

definition slot_ok :: "'a Queue \<Rightarrow> int \<Rightarrow> bool" where
  "slot_ok q i = (Is_Allocated q \<and> 0 \<le> i \<and> nat i < length (mSlots q))"

definition Emplace :: "'a \<Rightarrow> 'a Queue \<Rightarrow> (bool, 'a Queue) outcome" where
  "Emplace aArgument q =
     (let cUnwrappedPushIndex = mPushIndex q;
          cUnwrappedPopIndex = mPopIndex q;
          cIndexDelta = sub32 cUnwrappedPushIndex cUnwrappedPopIndex
      in if cIndexDelta = mCapacity q \<or> cIndexDelta = sub32 (mCapacity q) (mIndexEnd q)
         then Returns False q
         else
           (case rem32 cUnwrappedPushIndex (mCapacity q) of
              None \<Rightarrow> Undefined_Behaviour
            | Some cPushIndex \<Rightarrow>
                if \<not> slot_ok q cPushIndex then Undefined_Behaviour
                else
                  let q1 = q\<lparr>mSlots := (mSlots q)[nat cPushIndex := Some aArgument]\<rparr>;
                      cNewPushIndex = Bump_Index q1 cUnwrappedPushIndex;
                      q2 = q1\<lparr>mPushIndex := cNewPushIndex\<rparr>
                  in Returns True (Increase_Size 1 q2)))"

text \<open>
  \<open>Pop\<close> returns \<open>Some v\<close> for \<open>true\<close> with \<open>v\<close> moved into \<open>aPopped\<close>, and \<open>None\<close> for
  \<open>false\<close>, \<open>aPopped\<close> untouched.
\<close>

definition Pop :: "'a Queue \<Rightarrow> ('a option, 'a Queue) outcome" where
  "Pop q =
     (let cUnwrappedPushIndex = mPushIndex q;
          cUnwrappedPopIndex = mPopIndex q
      in if cUnwrappedPopIndex = cUnwrappedPushIndex
         then Returns None q
         else
           (case rem32 cUnwrappedPopIndex (mCapacity q) of
              None \<Rightarrow> Undefined_Behaviour
            | Some cPopIndex \<Rightarrow>
                if \<not> slot_ok q cPopIndex then Undefined_Behaviour
                else
                  (case mSlots q ! nat cPopIndex of
                     None \<Rightarrow> Undefined_Behaviour
                   | Some cData \<Rightarrow>
                       let q1 = q\<lparr>mSlots := (mSlots q)[nat cPopIndex := None]\<rparr>;
                           cNewPopIndex = Bump_Index q1 cUnwrappedPopIndex;
                           q2 = q1\<lparr>mPopIndex := cNewPopIndex\<rparr>
                       in Returns (Some cData) (Decrease_Size 1 q2))))"

subsection \<open>Batches\<close>

text \<open>
  \<open>std::uninitialized_move_n(first, n, dest)\<close> with \<open>first\<close> the elements from the source
  pointer to the end of the span and \<open>dest\<close> a slot of the storage: nothing for
  \<open>n \<le> 0\<close>, undefined when it reads past the span or writes outside the storage.
\<close>

definition uninitialized_move_n :: "'a list \<Rightarrow> int \<Rightarrow> int \<Rightarrow> 'a Queue \<Rightarrow> 'a Queue option" where
  "uninitialized_move_n first n dest q =
     (if n \<le> 0 then Some q
      else if length first < nat n \<or> \<not> slot_ok q dest \<or> \<not> slot_ok q (dest + n - 1) then None
      else Some (q\<lparr>mSlots := take (nat dest) (mSlots q) @ map Some (take (nat n) first)
                      @ drop (nat dest + nat n) (mSlots q)\<rparr>))"

text \<open>The pointer \<open>data + n\<close> into a span: the elements from there on.\<close>

definition span_from :: "'a list \<Rightarrow> int \<Rightarrow> 'a list option" where
  "span_from aSpan n = (if 0 \<le> n \<and> nat n \<le> length aSpan then Some (drop (nat n) aSpan) else None)"

text \<open>\<open>std::span(first, count)\<close>, \<open>first\<close> given by the elements from the pointer on.\<close>

definition span_of :: "'a list \<Rightarrow> int \<Rightarrow> 'a list option" where
  "span_of first n = (if 0 \<le> n \<and> nat n \<le> length first then Some (take (nat n) first) else None)"

definition Emplace_Multiple :: "'a list \<Rightarrow> 'a Queue \<Rightarrow> ('a list, 'a Queue) outcome" where
  "Emplace_Multiple aSpan q =
     (let cUnwrappedPushIndex = mPushIndex q;
          cUnwrappedPopIndex = mPopIndex q;
          cMaxPushIndex = add32 cUnwrappedPopIndex (mCapacity q);
          cSlots = sub32 cMaxPushIndex cUnwrappedPushIndex;
          cMaxSlotsAvailable = sub32 cSlots (if cSlots \<ge> mIndexEnd q then mIndexEnd q else 0);
          cSpanSize = int_of_size_t (length aSpan);
          cNumToPush = min cSpanSize cMaxSlotsAvailable
      in if cNumToPush = 0 then Returns aSpan q
         else
           (case rem32 cUnwrappedPushIndex (mCapacity q) of
              None \<Rightarrow> Undefined_Behaviour
            | Some cPushIndex \<Rightarrow>
                let cDistanceBeyondEnd = sub32 (add32 cPushIndex cNumToPush) (mCapacity q);
                    pushed =
                      (if cDistanceBeyondEnd \<le> 0
                       then uninitialized_move_n aSpan cNumToPush cPushIndex q
                       else
                         let cInitialLength = sub32 cNumToPush cDistanceBeyondEnd
                         in case uninitialized_move_n aSpan cInitialLength cPushIndex q of
                              None \<Rightarrow> None
                            | Some q' \<Rightarrow>
                                (case span_from aSpan cInitialLength of
                                   None \<Rightarrow> None
                                 | Some cToPush \<Rightarrow> uninitialized_move_n cToPush cDistanceBeyondEnd 0 q'))
                in case pushed of
                     None \<Rightarrow> Undefined_Behaviour
                   | Some q1 \<Rightarrow>
                       let cNewPushIndex = Increase_Index q1 cUnwrappedPushIndex cNumToPush;
                           q2 = q1\<lparr>mPushIndex := cNewPushIndex\<rparr>;
                           q3 = Increase_Size cNumToPush q2
                       in case span_from aSpan cNumToPush of
                            None \<Rightarrow> Undefined_Behaviour
                          | Some cRemainingBegin \<Rightarrow>
                              (case span_of cRemainingBegin (sub32 cSpanSize cNumToPush) of
                                 None \<Rightarrow> Undefined_Behaviour
                               | Some cRemaining \<Rightarrow> Returns cRemaining q3)))"

text \<open>
  The output container of \<open>Pop_Multiple\<close>, a \<open>std::vector\<close> in the tests: its elements and
  its \<open>capacity()\<close>, which is never below its \<open>size()\<close>. An \<open>insert\<close> at the end keeps the
  capacity where the new elements fit.
\<close>

record 'a Container =
  c_items :: "'a list"
  c_capacity :: nat

definition insert_end :: "'a list \<Rightarrow> 'a Container \<Rightarrow> 'a Container" where
  "insert_end xs c = c\<lparr>c_items := c_items c @ xs,
     c_capacity := max (c_capacity c) (length (c_items c @ xs))\<rparr>"

text \<open>
  The lambda \<open>cPopAndDestroy\<close>: the objects of \<open>aNumToPop\<close> slots from \<open>aPopData\<close> on are
  appended to the container and destroyed. A negative count, a slot outside the storage
  and a slot without an object are undefined.
\<close>

definition cPopAndDestroy ::
  "int \<Rightarrow> int \<Rightarrow> 'a Container \<times> 'a Queue \<Rightarrow> ('a Container \<times> 'a Queue) option" where
  "cPopAndDestroy aPopData aNumToPop cq =
     (let aPopped = fst cq; q = snd cq
      in if aNumToPop < 0 \<or> \<not> Is_Allocated q \<or> aPopData < 0
            \<or> length (mSlots q) < nat aPopData + nat aNumToPop then None
         else
           let objects = take (nat aNumToPop) (drop (nat aPopData) (mSlots q))
           in if None \<in> set objects then None
              else Some (insert_end (map the objects) aPopped,
                         q\<lparr>mSlots := take (nat aPopData) (mSlots q) @ replicate (nat aNumToPop) None
                                @ drop (nat aPopData + nat aNumToPop) (mSlots q)\<rparr>))"

definition Pop_Multiple :: "'a Container \<Rightarrow> 'a Queue \<Rightarrow> ('a Container, 'a Queue) outcome" where
  "Pop_Multiple aPopped q =
     (let cUnwrappedPushIndex = mPushIndex q;
          cUnwrappedPopIndex = mPopIndex q;
          cSlots = sub32 cUnwrappedPushIndex cUnwrappedPopIndex;
          cMaxSlotsAvailable = add32 cSlots (if cSlots < 0 then mIndexEnd q else 0);
          cOutputSpaceAvailable = int_of_size_t (c_capacity aPopped - length (c_items aPopped));
          cNumToPop = min cOutputSpaceAvailable cMaxSlotsAvailable
      in if cNumToPop = 0 then Returns aPopped q
         else
           (case rem32 cUnwrappedPopIndex (mCapacity q) of
              None \<Rightarrow> Undefined_Behaviour
            | Some cPopIndex \<Rightarrow>
                let cDistanceBeyondEnd = sub32 (add32 cPopIndex cNumToPop) (mCapacity q);
                    popped =
                      (if cDistanceBeyondEnd \<le> 0
                       then cPopAndDestroy cPopIndex cNumToPop (aPopped, q)
                       else
                         let cInitialLength = sub32 cNumToPop cDistanceBeyondEnd
                         in case cPopAndDestroy cPopIndex cInitialLength (aPopped, q) of
                              None \<Rightarrow> None
                            | Some cq \<Rightarrow> cPopAndDestroy 0 cDistanceBeyondEnd cq)
                in case popped of
                     None \<Rightarrow> Undefined_Behaviour
                   | Some (aPopped', q1) \<Rightarrow>
                       let cNewPopIndex = Increase_Index q1 cUnwrappedPopIndex cNumToPop;
                           q2 = q1\<lparr>mPopIndex := cNewPopIndex\<rparr>
                       in Returns aPopped' (Decrease_Size cNumToPop q2)))"

subsection \<open>Wait control\<close>

definition End_PopWaiting :: "'a Queue \<Rightarrow> 'a Queue" where
  "End_PopWaiting q = q\<lparr>mSize := mSize q OR sSizeMask\<rparr>"

definition Reset_PopWaiting :: "'a Queue \<Rightarrow> 'a Queue" where
  "Reset_PopWaiting q = q\<lparr>mSize := mSize q AND (NOT sSizeMask)\<rparr>"



section \<open>Invariants and abstraction\<close>

text \<open>
  The number of live elements as the specification defines it, the slot of the \<open>i\<close>-th
  live element counted from the pop index, and the elements in the order in which they
  will be popped.
\<close>

definition live_count :: "'a Queue \<Rightarrow> int" where
  "live_count q = (mPushIndex q - mPopIndex q) mod mIndexEnd q"

definition live_slot :: "'a Queue \<Rightarrow> nat \<Rightarrow> nat" where
  "live_slot q i = nat ((mPopIndex q + int i) mod mCapacity q)"

definition contents :: "'a Queue \<Rightarrow> 'a list" where
  "contents q = map (\<lambda>i. the (mSlots q ! live_slot q i)) [0..<nat (live_count q)]"

text \<open>
  The invariants of the data model for an allocated queue: the geometry fixed by
  \<open>Allocate\<close>, both indices in \<open>[0, mIndexEnd)\<close>, at most \<open>mCapacity\<close> live elements,
  the low 31 bits of \<open>mSize\<close> equal to their number, and an object in every live slot.
\<close>

definition queue_inv :: "'a Queue \<Rightarrow> bool" where
  "queue_inv q =
     (Is_Allocated q \<and> 0 < mCapacity q \<and> 2 \<le> INT_MAX div mCapacity q
      \<and> mIndexEnd q = mCapacity q * (INT_MAX div mCapacity q)
      \<and> length (mSlots q) = nat (mCapacity q)
      \<and> 0 \<le> mPushIndex q \<and> mPushIndex q < mIndexEnd q
      \<and> 0 \<le> mPopIndex q \<and> mPopIndex q < mIndexEnd q
      \<and> live_count q \<le> mCapacity q
      \<and> INT_MIN \<le> mSize q \<and> mSize q \<le> INT_MAX \<and> size_q q = live_count q
      \<and> list_all (\<lambda>i. mSlots q ! live_slot q i \<noteq> None) [0..<nat (live_count q)])"

text \<open>The queues a successful \<open>Emplace\<close> and a successful \<open>Pop\<close> leave behind.\<close>

definition pushed :: "'a \<Rightarrow> 'a Queue \<Rightarrow> 'a Queue" where
  "pushed v q = q\<lparr>mSlots := (mSlots q)[nat (mPushIndex q mod mCapacity q) := Some v],
     mPushIndex := (mPushIndex q + 1) mod mIndexEnd q, mSize := mSize q + 1\<rparr>"

definition popped :: "'a Queue \<Rightarrow> 'a Queue" where
  "popped q = q\<lparr>mSlots := (mSlots q)[nat (mPopIndex q mod mCapacity q) := None],
     mPopIndex := (mPopIndex q + 1) mod mIndexEnd q, mSize := mSize q - 1\<rparr>"

text \<open>
  A run of single-element operations on the queue, and the same run on the bounded FIFO of
  the specification: a list of at most \<open>cap\<close> elements, pushed at the back unless full,
  popped at the front unless empty.
\<close>

datatype 'a queue_op = Push 'a | PopOne
datatype 'a observation = Pushed bool | Popped "'a option"

fun run_ops :: "'a queue_op list \<Rightarrow> 'a Queue \<Rightarrow> ('a observation list, 'a Queue) outcome" where
  "run_ops [] q = Returns [] q"
| "run_ops (Push v # ops) q =
     bind_outcome (Emplace v q) (\<lambda>b q1.
       bind_outcome (run_ops ops q1) (\<lambda>obs q2. Returns (Pushed b # obs) q2))"
| "run_ops (PopOne # ops) q =
     bind_outcome (Pop q) (\<lambda>r q1.
       bind_outcome (run_ops ops q1) (\<lambda>obs q2. Returns (Popped r # obs) q2))"

fun fifo_ops :: "nat \<Rightarrow> 'a queue_op list \<Rightarrow> 'a list \<Rightarrow> 'a observation list \<times> 'a list" where
  "fifo_ops cap [] xs = ([], xs)"
| "fifo_ops cap (Push v # ops) xs =
     (if length xs = cap then (Pushed False # fst (fifo_ops cap ops xs), snd (fifo_ops cap ops xs))
      else (Pushed True # fst (fifo_ops cap ops (xs @ [v])), snd (fifo_ops cap ops (xs @ [v]))))"
| "fifo_ops cap (PopOne # ops) xs =
     (case xs of
        [] \<Rightarrow> (Popped None # fst (fifo_ops cap ops []), snd (fifo_ops cap ops []))
      | x # xs' \<Rightarrow> (Popped (Some x) # fst (fifo_ops cap ops xs'), snd (fifo_ops cap ops xs')))"

text \<open>Cycles of one push by the producer and one pop by the consumer.\<close>

fun push_pop_cycles :: "'a list \<Rightarrow> 'a Queue \<Rightarrow> ((bool \<times> 'a option) list, 'a Queue) outcome" where
  "push_pop_cycles [] q = Returns [] q"
| "push_pop_cycles (v # vs) q =
     bind_outcome (Emplace v q) (\<lambda>b q1.
       bind_outcome (Pop q1) (\<lambda>r q2.
         bind_outcome (push_pop_cycles vs q2) (\<lambda>rs q3. Returns ((b, r) # rs) q3)))"

text \<open>The two-point check of the specification for a full ring.\<close>

definition ring_full :: "'a Queue \<Rightarrow> bool" where
  "ring_full q =
     (let delta = mPushIndex q - mPopIndex q
      in delta = mCapacity q \<or> delta = mCapacity q - mIndexEnd q)"

text \<open>Queues of capacity 3, for concrete instances.\<close>

definition ring3 :: "int \<Rightarrow> int \<Rightarrow> int \<Rightarrow> int option list \<Rightarrow> int Queue" where
  "ring3 push pop sz slots = \<lparr>mPushIndex = push, mPopIndex = pop, mSize = sz, mStorage = 64,
     mCapacity = 3, mIndexEnd = 2147483646, mSlots = slots\<rparr>"

text \<open>The terminal flag of the pop side: the high bit of \<open>mSize\<close>.\<close>

definition terminal_flag :: "'a Queue \<Rightarrow> bool" where
  "terminal_flag q = (mSize q AND sSizeMask \<noteq> 0)"


text \<open>
  Three allocators: one that is out of memory and says so with \<open>nullptr\<close>, one that
  throws, as the allocator of the tests does, and one that returns the address 64.
\<close>

definition exhausted_allocator :: "nat \<Rightarrow> nat \<Rightarrow> alloc_result" where
  "exhausted_allocator bytes alignment = Alloc_returns nullptr"

definition throwing_allocator :: "nat \<Rightarrow> nat \<Rightarrow> alloc_result" where
  "throwing_allocator bytes alignment = Alloc_throws"

definition fixed_allocator :: "nat \<Rightarrow> nat \<Rightarrow> alloc_result" where
  "fixed_allocator bytes alignment = Alloc_returns 64"

text \<open>
  The storage as a ring: writing a list of objects from slot \<open>s\<close> on, reading and
  clearing \<open>n\<close> slots from slot \<open>s\<close> on, each continuing at slot 0 past the last slot.
\<close>

definition ring_write :: "'a list \<Rightarrow> nat \<Rightarrow> 'a option list \<Rightarrow> 'a option list" where
  "ring_write xs s slots =
     (let k = min (length xs) (length slots - s);
          slots1 = take s slots @ map Some (take k xs) @ drop (s + k) slots
      in map Some (drop k xs) @ drop (length xs - k) slots1)"

definition ring_read :: "nat \<Rightarrow> nat \<Rightarrow> 'a option list \<Rightarrow> 'a option list" where
  "ring_read n s slots =
     (let k = min n (length slots - s) in take k (drop s slots) @ take (n - k) slots)"

definition ring_clear :: "nat \<Rightarrow> nat \<Rightarrow> 'a option list \<Rightarrow> 'a option list" where
  "ring_clear n s slots =
     (let k = min n (length slots - s);
          slots1 = take s slots @ replicate k None @ drop (s + k) slots
      in replicate (n - k) None @ drop (n - k) slots1)"

text \<open>The queues a batch push and a batch pop leave behind.\<close>

definition pushed_many :: "'a list \<Rightarrow> 'a Queue \<Rightarrow> 'a Queue" where
  "pushed_many ys q = q\<lparr>mSlots := ring_write ys (nat (mPushIndex q mod mCapacity q)) (mSlots q),
     mPushIndex := (mPushIndex q + int (length ys)) mod mIndexEnd q,
     mSize := mSize q + int (length ys)\<rparr>"

definition popped_many :: "nat \<Rightarrow> 'a Queue \<Rightarrow> 'a Queue" where
  "popped_many m q = q\<lparr>mSlots := ring_clear m (nat (mPopIndex q mod mCapacity q)) (mSlots q),
     mPopIndex := Increase_Index q (mPopIndex q) (int m),
     mSize := mSize q - int m\<rparr>"

text \<open>The queue a successful \<open>Free\<close> leaves behind.\<close>

definition freed :: "'a Queue \<Rightarrow> 'a Queue" where
  "freed q = q\<lparr>mStorage := nullptr, mCapacity := 0, mSlots := []\<rparr>"

text \<open>Queues of capacity 4, for concrete instances.\<close>

definition ring4 :: "int \<Rightarrow> int \<Rightarrow> int \<Rightarrow> int option list \<Rightarrow> int Queue" where
  "ring4 push pop sz slots = \<lparr>mPushIndex = push, mPopIndex = pop, mSize = sz, mStorage = 64,
     mCapacity = 4, mIndexEnd = 2147483644, mSlots = slots\<rparr>"

section \<open>Properties\<close>

lemma int32_id: "INT_MIN \<le> x \<Longrightarrow> x \<le> INT_MAX \<Longrightarrow> int32 x = x"
  unfolding int32_def INT_MIN_def INT_MAX_def by simp

lemma int32_range: "INT_MIN \<le> int32 x \<and> int32 x \<le> INT_MAX"
  unfolding int32_def INT_MIN_def INT_MAX_def
  using pos_mod_bound [of 4294967296 "x + 2147483648"] pos_mod_sign [of 4294967296 "x + 2147483648"]
  by linarith

lemma int32_mod: "int32 x mod 2147483648 = x mod 2147483648"
proof -
  have "int32 x mod 2147483648 = ((x + 2147483648) mod 4294967296) mod 2147483648"
    unfolding int32_def by (simp add: mod_diff_eq [symmetric])
  also have "\<dots> = (x + 2147483648) mod 2147483648"
    by (rule mod_mod_cancel) simp
  also have "\<dots> = x mod 2147483648" by simp
  finally show ?thesis .
qed


lemma not_sSizeMask: "NOT sSizeMask = 2147483647"
  by (simp add: sSizeMask_def int32_def)

lemma size_q_mod: "size_q q = mSize q mod 2147483648"
proof -
  have "(2147483647::int) = mask 31" by (simp add: mask_eq_exp_minus_1)
  then have "mSize q AND 2147483647 = take_bit 31 (mSize q)"
    by (simp add: take_bit_eq_mask)
  then show ?thesis
    by (simp add: size_q_def not_sSizeMask take_bit_eq_mod)
qed

lemma rem32_nonneg: "0 \<le> a \<Longrightarrow> 0 < b \<Longrightarrow> rem32 a b = Some (a mod b)"
  by (cases "a = 0") (simp_all add: rem32_def)

lemma inv_geometry:
  assumes "queue_inv q"
  shows "0 < mCapacity q" and "mIndexEnd q \<le> INT_MAX" and "2 * mCapacity q \<le> mIndexEnd q"
    and "mCapacity q dvd mIndexEnd q" and "INT_MAX - mCapacity q < mIndexEnd q"
proof -
  let ?c = "mCapacity q" and ?k = "INT_MAX div mCapacity q"
  from assms have c: "0 < ?c" and k: "2 \<le> ?k" and e: "mIndexEnd q = ?c * ?k"
    by (simp_all add: queue_inv_def)
  show "0 < ?c" by (rule c)
  have dm: "?c * ?k + INT_MAX mod ?c = INT_MAX" by simp
  have m0: "0 \<le> INT_MAX mod ?c" and m1: "INT_MAX mod ?c < ?c" using c by simp_all
  show "mIndexEnd q \<le> INT_MAX" using dm m0 e by linarith
  show "INT_MAX - ?c < mIndexEnd q" using dm m1 e by linarith
  have "?c * 2 \<le> ?c * ?k" using c k by (intro mult_left_mono) simp_all
  then show "2 * ?c \<le> mIndexEnd q" using e by simp
  show "?c dvd mIndexEnd q" using e by simp
qed

lemma inv_indices:
  assumes "queue_inv q"
  shows "0 \<le> mPushIndex q" and "mPushIndex q < mIndexEnd q"
    and "0 \<le> mPopIndex q" and "mPopIndex q < mIndexEnd q"
    and "0 \<le> live_count q" and "live_count q \<le> mCapacity q"
proof -
  from assms show "0 \<le> mPushIndex q" "mPushIndex q < mIndexEnd q"
    "0 \<le> mPopIndex q" "mPopIndex q < mIndexEnd q" "live_count q \<le> mCapacity q"
    by (simp_all add: queue_inv_def)
  then have "0 < mIndexEnd q" by linarith
  then show "0 \<le> live_count q" by (simp add: live_count_def)
qed

text \<open>The element count in terms of the difference of the indices.\<close>

lemma live_count_delta:
  assumes "queue_inv q"
  shows "live_count q = (if mPopIndex q \<le> mPushIndex q then mPushIndex q - mPopIndex q
                         else mPushIndex q - mPopIndex q + mIndexEnd q)"
proof -
  note i = inv_indices [OF assms]
  show ?thesis
  proof (cases "mPopIndex q \<le> mPushIndex q")
    case True
    then have "(mPushIndex q - mPopIndex q) mod mIndexEnd q = mPushIndex q - mPopIndex q"
      using i by (intro mod_pos_pos_trivial) linarith+
    then show ?thesis using True by (simp add: live_count_def)
  next
    case False
    have "(mPushIndex q - mPopIndex q) mod mIndexEnd q
        = (mPushIndex q - mPopIndex q + mIndexEnd q) mod mIndexEnd q" by simp
    also have "\<dots> = mPushIndex q - mPopIndex q + mIndexEnd q"
      using i False by (intro mod_pos_pos_trivial) linarith+
    finally show ?thesis using False by (simp add: live_count_def)
  qed
qed

lemma full_check:
  assumes "queue_inv q"
  shows "(sub32 (mPushIndex q) (mPopIndex q) = mCapacity q
          \<or> sub32 (mPushIndex q) (mPopIndex q) = sub32 (mCapacity q) (mIndexEnd q))
         = (live_count q = mCapacity q)"
proof -
  note i = inv_indices [OF assms] and g = inv_geometry [OF assms]
  have d: "sub32 (mPushIndex q) (mPopIndex q) = mPushIndex q - mPopIndex q"
    unfolding sub32_def using i g by (intro int32_id) (simp_all add: INT_MIN_def INT_MAX_def)
  have e: "sub32 (mCapacity q) (mIndexEnd q) = mCapacity q - mIndexEnd q"
    unfolding sub32_def using i g by (intro int32_id) (simp_all add: INT_MIN_def INT_MAX_def)
  show ?thesis
    unfolding d e live_count_delta [OF assms] using i g by auto
qed

lemma Bump_Index_mod:
  assumes "0 \<le> a" "a < mIndexEnd q" "mIndexEnd q \<le> INT_MAX"
  shows "Bump_Index q a = (a + 1) mod mIndexEnd q"
proof -
  have s: "add32 a 1 = a + 1"
    unfolding add32_def using assms by (intro int32_id) (simp_all add: INT_MIN_def INT_MAX_def)
  show ?thesis
  proof (cases "a + 1 < mIndexEnd q")
    case True
    then show ?thesis using assms by (simp add: Bump_Index_def s)
  next
    case False
    then have "a + 1 = mIndexEnd q" using assms by linarith
    then show ?thesis using False by (simp add: Bump_Index_def s)
  qed
qed

lemma inv_mSize:
  assumes "queue_inv q"
  shows "mSize q = live_count q \<or> mSize q = live_count q + INT_MIN"
proof -
  from assms have b: "INT_MIN \<le> mSize q" "mSize q \<le> INT_MAX" and s: "size_q q = live_count q"
    by (simp_all add: queue_inv_def)
  show ?thesis
  proof (cases "0 \<le> mSize q")
    case True
    then have "mSize q mod 2147483648 = mSize q"
      using b by (intro mod_pos_pos_trivial) (simp_all add: INT_MAX_def)
    then show ?thesis using s by (simp add: size_q_mod)
  next
    case False
    have "mSize q mod 2147483648 = (mSize q + 2147483648) mod 2147483648" by simp
    also have "\<dots> = mSize q + 2147483648"
      using b False by (intro mod_pos_pos_trivial) (simp_all add: INT_MIN_def)
    finally show ?thesis using s by (simp add: size_q_mod INT_MIN_def)
  qed
qed

lemma live_slot_less: "0 < mCapacity q \<Longrightarrow> live_slot q i < nat (mCapacity q)"
  by (simp add: live_slot_def nat_less_iff)

lemma live_slot_inj:
  assumes "0 < mCapacity q" "i < nat (mCapacity q)" "j < nat (mCapacity q)"
    and "live_slot q i = live_slot q j"
  shows "i = j"
proof -
  let ?c = "mCapacity q"
  have "(mPopIndex q + int i) mod ?c = (mPopIndex q + int j) mod ?c"
    using assms(1,4) by (simp add: live_slot_def nat_eq_iff)
  then have "?c dvd (mPopIndex q + int i) - (mPopIndex q + int j)"
    by (simp add: mod_eq_dvd_iff)
  then have d: "?c dvd int i - int j" by simp
  have "\<bar>int i - int j\<bar> < ?c" using assms(2,3) by linarith
  have "int i - int j = 0"
  proof (rule ccontr)
    assume "int i - int j \<noteq> 0"
    then have "\<bar>?c\<bar> \<le> \<bar>int i - int j\<bar>" using d by (rule dvd_imp_le_int)
    with \<open>\<bar>int i - int j\<bar> < ?c\<close> show False by linarith
  qed
  then show ?thesis by simp
qed

lemma push_slot:
  assumes "queue_inv q"
  shows "nat (mPushIndex q mod mCapacity q) = live_slot q (nat (live_count q))"
proof -
  note i = inv_indices [OF assms] and g = inv_geometry [OF assms]
  let ?c = "mCapacity q" and ?e = "mIndexEnd q"
  have "(mPopIndex q + live_count q) mod ?c
      = (mPopIndex q + (mPushIndex q - mPopIndex q) mod ?e mod ?c) mod ?c"
    by (simp add: live_count_def mod_simps)
  also have "\<dots> = (mPopIndex q + (mPushIndex q - mPopIndex q) mod ?c) mod ?c"
    using g(4) by (simp add: mod_mod_cancel)
  also have "\<dots> = mPushIndex q mod ?c" by (simp add: mod_simps)
  finally show ?thesis using i by (simp add: live_slot_def)
qed

lemma Emplace_inv:
  assumes "queue_inv q"
  shows "Emplace v q = (if live_count q = mCapacity q then Returns False q
                        else Returns True (pushed v q))"
proof (cases "live_count q = mCapacity q")
  case True
  then show ?thesis using full_check [OF assms] by (simp add: Emplace_def Let_def)
next
  case False
  note i = inv_indices [OF assms] and g = inv_geometry [OF assms]
  from assms have a: "Is_Allocated q" and l: "length (mSlots q) = nat (mCapacity q)"
    by (simp_all add: queue_inv_def)
  have r: "rem32 (mPushIndex q) (mCapacity q) = Some (mPushIndex q mod mCapacity q)"
    using i g by (simp add: rem32_nonneg)
  have ok: "slot_ok q (mPushIndex q mod mCapacity q)"
    using a l g by (simp add: slot_ok_def nat_less_iff)
  have b: "Bump_Index (q\<lparr>mSlots := ms\<rparr>) (mPushIndex q) = (mPushIndex q + 1) mod mIndexEnd q" for ms
    using Bump_Index_mod [of "mPushIndex q" "q\<lparr>mSlots := ms\<rparr>"] i g by simp
  have "mSize q + 1 \<le> INT_MAX" "INT_MIN \<le> mSize q + 1"
    using inv_mSize [OF assms] i g False by (auto simp: INT_MIN_def INT_MAX_def)
  then have s: "add32 (mSize q) 1 = mSize q + 1"
    unfolding add32_def by (intro int32_id)
  show ?thesis
    using False full_check [OF assms]
    by (simp add: Emplace_def Let_def r ok b s Increase_Size_def pushed_def)
qed

lemma pushed_count:
  assumes "queue_inv q" "live_count q \<noteq> mCapacity q"
  shows "live_count (pushed v q) = live_count q + 1"
proof -
  note i = inv_indices [OF assms(1)] and g = inv_geometry [OF assms(1)]
  let ?e = "mIndexEnd q"
  have "live_count (pushed v q) = ((mPushIndex q + 1) mod ?e - mPopIndex q) mod ?e"
    by (simp add: live_count_def pushed_def)
  also have "\<dots> = ((mPushIndex q - mPopIndex q) mod ?e + 1) mod ?e"
    by (simp add: mod_simps algebra_simps)
  also have "\<dots> = live_count q + 1"
    unfolding live_count_def [symmetric] using i g assms(2) by (intro mod_pos_pos_trivial) linarith+
  finally show ?thesis .
qed

lemma pushed_live_slot [simp]: "live_slot (pushed v q) i = live_slot q i"
  by (simp add: live_slot_def pushed_def)

lemma pushed_slots_nth:
  assumes "queue_inv q" "live_count q \<noteq> mCapacity q" "i \<le> nat (live_count q)"
  shows "mSlots (pushed v q) ! live_slot q i
         = (if i = nat (live_count q) then Some v else mSlots q ! live_slot q i)"
proof -
  note c = inv_indices [OF assms(1)] and g = inv_geometry [OF assms(1)]
  from assms(1) have l: "length (mSlots q) = nat (mCapacity q)" by (simp add: queue_inv_def)
  have n: "nat (live_count q) < nat (mCapacity q)" using c assms(2) by linarith
  show ?thesis
  proof (cases "i = nat (live_count q)")
    case True
    then show ?thesis
      using push_slot [OF assms(1)] live_slot_less [OF g(1), of "nat (live_count q)"] l
      by (simp add: pushed_def)
  next
    case False
    then have "live_slot q i \<noteq> live_slot q (nat (live_count q))"
      using live_slot_inj [OF g(1), of i "nat (live_count q)"] n assms(3) by auto
    then show ?thesis using False push_slot [OF assms(1)] by (simp add: pushed_def)
  qed
qed

lemma pushed_contents:
  assumes "queue_inv q" "live_count q \<noteq> mCapacity q"
  shows "contents (pushed v q) = contents q @ [v]"
proof -
  note c = inv_indices [OF assms(1)]
  have n: "nat (live_count (pushed v q)) = Suc (nat (live_count q))"
    using pushed_count [OF assms] c by (simp add: nat_add_distrib)
  show ?thesis
    unfolding contents_def n using pushed_slots_nth [OF assms] by simp
qed

lemma pushed_inv:
  assumes "queue_inv q" "live_count q \<noteq> mCapacity q"
  shows "queue_inv (pushed v q)"
proof -
  note c = inv_indices [OF assms(1)] and g = inv_geometry [OF assms(1)]
  have n: "nat (live_count (pushed v q)) = Suc (nat (live_count q))"
    using pushed_count [OF assms] c by (simp add: nat_add_distrib)
  have e: "0 < mIndexEnd q" using c by linarith
  have live: "list_all (\<lambda>i. mSlots (pushed v q) ! live_slot (pushed v q) i \<noteq> None)
               [0..<nat (live_count (pushed v q))]"
    unfolding n using assms(1) pushed_slots_nth [OF assms, of _ v]
    by (auto simp: queue_inv_def list_all_iff)
  have sz: "size_q (pushed v q) = live_count q + 1"
  proof -
    have "size_q (pushed v q) = (mSize q mod 2147483648 + 1) mod 2147483648"
      by (simp add: size_q_mod pushed_def mod_simps)
    also have "\<dots> = (live_count q + 1) mod 2147483648"
      using assms(1) by (simp add: queue_inv_def size_q_mod)
    also have "\<dots> = live_count q + 1"
      using c g assms(2) by (intro mod_pos_pos_trivial) (simp_all add: INT_MAX_def)
    finally show ?thesis .
  qed
  have ms: "INT_MIN \<le> mSize (pushed v q) \<and> mSize (pushed v q) \<le> INT_MAX"
    using inv_mSize [OF assms(1)] c g assms(2) by (auto simp: pushed_def INT_MIN_def INT_MAX_def)
  have rest: "Is_Allocated (pushed v q) \<and> mCapacity (pushed v q) = mCapacity q
      \<and> mIndexEnd (pushed v q) = mIndexEnd q \<and> length (mSlots (pushed v q)) = nat (mCapacity q)
      \<and> mPopIndex (pushed v q) = mPopIndex q"
    using assms(1) by (simp add: queue_inv_def pushed_def Is_Allocated_def)
  have pi: "0 \<le> mPushIndex (pushed v q) \<and> mPushIndex (pushed v q) < mIndexEnd q"
    using e by (simp add: pushed_def)
  show ?thesis
    unfolding queue_inv_def
    using rest pi ms sz live pushed_count [OF assms, of v] assms c g
    by (simp add: queue_inv_def)
qed

lemma empty_check:
  assumes "queue_inv q"
  shows "(mPopIndex q = mPushIndex q) = (live_count q = 0)"
  unfolding live_count_delta [OF assms] using inv_indices [OF assms] by auto

lemma pop_slot: "0 \<le> mPopIndex q \<Longrightarrow> nat (mPopIndex q mod mCapacity q) = live_slot q 0"
  by (simp add: live_slot_def)

lemma contents_nth:
  "i < nat (live_count q) \<Longrightarrow> contents q ! i = the (mSlots q ! live_slot q i)"
  by (simp add: contents_def)

lemma length_contents [simp]: "length (contents q) = nat (live_count q)"
  by (simp add: contents_def)

lemma inv_live:
  assumes "queue_inv q" "i < nat (live_count q)"
  shows "mSlots q ! live_slot q i = Some (contents q ! i)"
proof -
  from assms have "mSlots q ! live_slot q i \<noteq> None"
    by (simp add: queue_inv_def list_all_iff)
  then show ?thesis using assms(2) by (auto simp: contents_nth)
qed

lemma Pop_inv:
  assumes "queue_inv q"
  shows "Pop q = (if live_count q = 0 then Returns None q
                  else Returns (Some (hd (contents q))) (popped q))"
proof (cases "live_count q = 0")
  case True
  then show ?thesis using empty_check [OF assms] by (simp add: Pop_def Let_def)
next
  case False
  note i = inv_indices [OF assms] and g = inv_geometry [OF assms]
  from assms have a: "Is_Allocated q" and l: "length (mSlots q) = nat (mCapacity q)"
    by (simp_all add: queue_inv_def)
  have pos: "0 < nat (live_count q)" using i False by simp
  have r: "rem32 (mPopIndex q) (mCapacity q) = Some (mPopIndex q mod mCapacity q)"
    using i g by (simp add: rem32_nonneg)
  have ok: "slot_ok q (mPopIndex q mod mCapacity q)"
    using a l g by (simp add: slot_ok_def nat_less_iff)
  have "contents q \<noteq> []" using pos by (simp add: contents_def)
  then have h: "hd (contents q) = contents q ! 0" by (simp add: hd_conv_nth)
  have v: "mSlots q ! nat (mPopIndex q mod mCapacity q) = Some (hd (contents q))"
    using inv_live [OF assms pos] i by (simp add: pop_slot h)
  have b: "Bump_Index (q\<lparr>mSlots := ms\<rparr>) (mPopIndex q) = (mPopIndex q + 1) mod mIndexEnd q" for ms
    using Bump_Index_mod [of "mPopIndex q" "q\<lparr>mSlots := ms\<rparr>"] i g by simp
  have "mSize q - 1 \<le> INT_MAX" "INT_MIN \<le> mSize q - 1"
    using inv_mSize [OF assms] i g False by (auto simp: INT_MIN_def INT_MAX_def)
  then have s: "sub32 (mSize q) 1 = mSize q - 1"
    unfolding sub32_def by (intro int32_id)
  show ?thesis
    using False empty_check [OF assms]
    by (simp add: Pop_def Let_def r ok v b s Decrease_Size_def popped_def)
qed

lemma popped_count:
  assumes "queue_inv q" "live_count q \<noteq> 0"
  shows "live_count (popped q) = live_count q - 1"
proof -
  note i = inv_indices [OF assms(1)] and g = inv_geometry [OF assms(1)]
  let ?e = "mIndexEnd q"
  have "live_count (popped q) = (mPushIndex q - (mPopIndex q + 1) mod ?e) mod ?e"
    by (simp add: live_count_def popped_def)
  also have "\<dots> = ((mPushIndex q - mPopIndex q) mod ?e - 1) mod ?e"
    by (simp add: mod_simps algebra_simps)
  also have "\<dots> = live_count q - 1"
    unfolding live_count_def [symmetric] using i g assms(2) by (intro mod_pos_pos_trivial) linarith+
  finally show ?thesis .
qed

lemma popped_live_slot:
  assumes "queue_inv q"
  shows "live_slot (popped q) i = live_slot q (Suc i)"
proof -
  note g = inv_geometry [OF assms]
  let ?c = "mCapacity q" and ?e = "mIndexEnd q"
  have "((mPopIndex q + 1) mod ?e + int i) mod ?c = ((mPopIndex q + 1) mod ?e mod ?c + int i) mod ?c"
    by (simp add: mod_simps)
  also have "\<dots> = ((mPopIndex q + 1) mod ?c + int i) mod ?c"
    using g(4) by (simp add: mod_mod_cancel)
  also have "\<dots> = (mPopIndex q + int (Suc i)) mod ?c"
    by (simp add: mod_simps algebra_simps)
  finally show ?thesis by (simp add: live_slot_def popped_def)
qed

lemma popped_slots_nth:
  assumes "queue_inv q" "Suc i < nat (live_count q)"
  shows "mSlots (popped q) ! live_slot q (Suc i) = mSlots q ! live_slot q (Suc i)"
proof -
  note c = inv_indices [OF assms(1)] and g = inv_geometry [OF assms(1)]
  have "Suc i < nat (mCapacity q)" using assms(2) c by linarith
  then have "live_slot q (Suc i) \<noteq> live_slot q 0"
    using live_slot_inj [OF g(1), of "Suc i" 0] g(1) by auto
  then show ?thesis using c by (simp add: popped_def pop_slot)
qed

lemma popped_contents:
  assumes "queue_inv q" "live_count q \<noteq> 0"
  shows "contents (popped q) = tl (contents q)"
proof (rule nth_equalityI)
  note c = inv_indices [OF assms(1)]
  show "length (contents (popped q)) = length (tl (contents q))"
    using popped_count [OF assms] c by (simp add: nat_diff_distrib)
  fix i assume "i < length (contents (popped q))"
  then have i: "Suc i < nat (live_count q)" "i < nat (live_count (popped q))"
    using popped_count [OF assms] c by simp_all
  have "contents (popped q) ! i = the (mSlots (popped q) ! live_slot q (Suc i))"
    using i(2) by (simp add: contents_nth popped_live_slot [OF assms(1)])
  also have "\<dots> = contents q ! Suc i"
    using i(1) by (simp add: popped_slots_nth [OF assms(1)] contents_nth)
  also have "\<dots> = tl (contents q) ! i"
    using i(1) by (simp add: nth_tl)
  finally show "contents (popped q) ! i = tl (contents q) ! i" .
qed

lemma popped_inv:
  assumes "queue_inv q" "live_count q \<noteq> 0"
  shows "queue_inv (popped q)"
proof -
  note c = inv_indices [OF assms(1)] and g = inv_geometry [OF assms(1)]
  have e: "0 < mIndexEnd q" using c by linarith
  have n: "live_count (popped q) = live_count q - 1" by (rule popped_count [OF assms])
  have live: "list_all (\<lambda>i. mSlots (popped q) ! live_slot (popped q) i \<noteq> None)
               [0..<nat (live_count (popped q))]"
  proof -
    have "mSlots (popped q) ! live_slot (popped q) i \<noteq> None" if "i < nat (live_count q - 1)" for i
    proof -
      from that have s: "Suc i < nat (live_count q)" by linarith
      show ?thesis
        using inv_live [OF assms(1) s] by (simp add: popped_live_slot [OF assms(1)] popped_slots_nth [OF assms(1) s])
    qed
    then show ?thesis by (simp add: n list_all_iff)
  qed
  have sz: "size_q (popped q) = live_count q - 1"
  proof -
    have "size_q (popped q) = (mSize q mod 2147483648 - 1) mod 2147483648"
      by (simp add: size_q_mod popped_def mod_simps)
    also have "\<dots> = (live_count q - 1) mod 2147483648"
      using assms(1) by (simp add: queue_inv_def size_q_mod)
    also have "\<dots> = live_count q - 1"
      using c g assms(2) by (intro mod_pos_pos_trivial) (simp_all add: INT_MAX_def)
    finally show ?thesis .
  qed
  have ms: "INT_MIN \<le> mSize (popped q) \<and> mSize (popped q) \<le> INT_MAX"
    using inv_mSize [OF assms(1)] c g assms(2) by (auto simp: popped_def INT_MIN_def INT_MAX_def)
  have rest: "Is_Allocated (popped q) \<and> mCapacity (popped q) = mCapacity q
      \<and> mIndexEnd (popped q) = mIndexEnd q \<and> length (mSlots (popped q)) = nat (mCapacity q)
      \<and> mPushIndex (popped q) = mPushIndex q"
    using assms(1) by (simp add: queue_inv_def popped_def Is_Allocated_def)
  have pi: "0 \<le> mPopIndex (popped q) \<and> mPopIndex (popped q) < mIndexEnd q"
    using e by (simp add: popped_def)
  show ?thesis
    unfolding queue_inv_def
    using rest pi ms sz live n assms c g
    by (simp add: queue_inv_def)
qed

lemma full_iff_length:
  assumes "queue_inv q"
  shows "(live_count q = mCapacity q) = (length (contents q) = nat (mCapacity q))"
  using inv_indices [OF assms] inv_geometry [OF assms] by auto

lemma run_ops_refines:
  assumes "queue_inv q"
  shows "\<exists>q'. run_ops ops q = Returns (fst (fifo_ops (nat (mCapacity q)) ops (contents q))) q'
           \<and> queue_inv q' \<and> mCapacity q' = mCapacity q
           \<and> contents q' = snd (fifo_ops (nat (mCapacity q)) ops (contents q))"
  using assms
proof (induction ops arbitrary: q)
  case Nil
  then show ?case by simp
next
  case (Cons a ops)
  note inv = Cons.prems
  show ?case
  proof (cases a)
    case (Push v)
    show ?thesis
    proof (cases "live_count q = mCapacity q")
      case True
      from Cons.IH [OF inv] obtain q' where
        "run_ops ops q = Returns (fst (fifo_ops (nat (mCapacity q)) ops (contents q))) q'"
        "queue_inv q'" "mCapacity q' = mCapacity q"
        "contents q' = snd (fifo_ops (nat (mCapacity q)) ops (contents q))" by blast
      then show ?thesis
        using True full_iff_length [OF inv] by (simp add: Push Emplace_inv [OF inv])
    next
      case False
      have c: "mCapacity (pushed v q) = mCapacity q" by (simp add: pushed_def)
      from Cons.IH [OF pushed_inv [OF inv False, of v]] obtain q' where
        "run_ops ops (pushed v q)
           = Returns (fst (fifo_ops (nat (mCapacity q)) ops (contents q @ [v]))) q'"
        "queue_inv q'" "mCapacity q' = mCapacity q"
        "contents q' = snd (fifo_ops (nat (mCapacity q)) ops (contents q @ [v]))"
        unfolding c pushed_contents [OF inv False] by blast
      then show ?thesis
        using False full_iff_length [OF inv] by (simp add: Push Emplace_inv [OF inv])
    qed
  next
    case PopOne
    show ?thesis
    proof (cases "live_count q = 0")
      case True
      then have e: "contents q = []" by (simp add: contents_def)
      from Cons.IH [OF inv] obtain q' where
        "run_ops ops q = Returns (fst (fifo_ops (nat (mCapacity q)) ops [])) q'"
        "queue_inv q'" "mCapacity q' = mCapacity q"
        "contents q' = snd (fifo_ops (nat (mCapacity q)) ops [])"
        unfolding e by blast
      then show ?thesis
        using True e by (simp add: PopOne Pop_inv [OF inv])
    next
      case False
      then have "contents q \<noteq> []" using inv_indices [OF inv] by (simp add: contents_def)
      then obtain x xs where e: "contents q = x # xs" by (cases "contents q") auto
      have c: "mCapacity (popped q) = mCapacity q" by (simp add: popped_def)
      from Cons.IH [OF popped_inv [OF inv False]] obtain q' where
        "run_ops ops (popped q) = Returns (fst (fifo_ops (nat (mCapacity q)) ops xs)) q'"
        "queue_inv q'" "mCapacity q' = mCapacity q"
        "contents q' = snd (fifo_ops (nat (mCapacity q)) ops xs)"
        unfolding c popped_contents [OF inv False] e by auto
      then show ?thesis
        using False e by (simp add: PopOne Pop_inv [OF inv])
    qed
  qed
qed

lemma cycle_step:
  assumes "queue_inv q" "live_count q = 0"
  shows "Emplace v q = Returns True (pushed v q)"
    and "Pop (pushed v q) = Returns (Some v) (popped (pushed v q))"
    and "queue_inv (popped (pushed v q))" and "live_count (popped (pushed v q)) = 0"
    and "mCapacity (popped (pushed v q)) = mCapacity q"
    and "mIndexEnd (popped (pushed v q)) = mIndexEnd q"
    and "mPushIndex (popped (pushed v q)) = (mPushIndex q + 1) mod mIndexEnd q"
    and "mPopIndex (popped (pushed v q)) = mPushIndex (popped (pushed v q))"
proof -
  note g = inv_geometry [OF assms(1)]
  have nf: "live_count q \<noteq> mCapacity q" using assms(2) g by simp
  show "Emplace v q = Returns True (pushed v q)" using nf by (simp add: Emplace_inv [OF assms(1)])
  have i1: "queue_inv (pushed v q)" by (rule pushed_inv [OF assms(1) nf])
  have c1: "live_count (pushed v q) = 1" using pushed_count [OF assms(1) nf, of v] assms(2) by simp
  then have ne: "live_count (pushed v q) \<noteq> 0" by simp
  have "contents (pushed v q) = [v]"
    using pushed_contents [OF assms(1) nf, of v] assms(2) by (simp add: contents_def)
  then show "Pop (pushed v q) = Returns (Some v) (popped (pushed v q))"
    using ne by (simp add: Pop_inv [OF i1])
  show i2: "queue_inv (popped (pushed v q))" by (rule popped_inv [OF i1 ne])
  show c2: "live_count (popped (pushed v q)) = 0" using popped_count [OF i1 ne] c1 by simp
  show "mCapacity (popped (pushed v q)) = mCapacity q" by (simp add: popped_def pushed_def)
  show "mIndexEnd (popped (pushed v q)) = mIndexEnd q" by (simp add: popped_def pushed_def)
  show "mPushIndex (popped (pushed v q)) = (mPushIndex q + 1) mod mIndexEnd q"
    by (simp add: popped_def pushed_def)
  show "mPopIndex (popped (pushed v q)) = mPushIndex (popped (pushed v q))"
    using empty_check [OF i2] c2 by simp
qed

lemma cycles_fifo:
  assumes "queue_inv q" "live_count q = 0"
  shows "\<exists>q'. push_pop_cycles vs q = Returns (map (\<lambda>v. (True, Some v)) vs) q'
           \<and> queue_inv q' \<and> live_count q' = 0
           \<and> mCapacity q' = mCapacity q \<and> mIndexEnd q' = mIndexEnd q
           \<and> mPushIndex q' = (mPushIndex q + int (length vs)) mod mIndexEnd q
           \<and> mPopIndex q' = mPushIndex q'"
  using assms
proof (induction vs arbitrary: q)
  case Nil
  then show ?case
    using inv_indices [OF Nil(1)] empty_check [OF Nil(1)] by simp
next
  case (Cons v vs)
  note s = cycle_step [OF Cons.prems, of v]
  from Cons.IH [OF s(3) s(4)] obtain q' where q':
    "push_pop_cycles vs (popped (pushed v q)) = Returns (map (\<lambda>v. (True, Some v)) vs) q'"
    "queue_inv q'" "live_count q' = 0" "mCapacity q' = mCapacity q" "mIndexEnd q' = mIndexEnd q"
    "mPushIndex q' = ((mPushIndex q + 1) mod mIndexEnd q + int (length vs)) mod mIndexEnd q"
    "mPopIndex q' = mPushIndex q'"
    unfolding s(5) s(6) s(7) by blast
  have "((mPushIndex q + 1) mod mIndexEnd q + int (length vs)) mod mIndexEnd q
      = (mPushIndex q + int (length (v # vs))) mod mIndexEnd q"
    by (simp add: mod_simps algebra_simps)
  then show ?case using q' s(1) s(2) by simp
qed

lemmas concrete_defs = ring3_def queue_inv_def Is_Allocated_def nullptr_def INT_MAX_def INT_MIN_def
  live_count_def live_slot_def size_q_def sSizeMask_def int32_def eval_nat_numeral

text \<open>
  Claim C1. On a queue that satisfies the invariants, \<open>Emplace\<close> returns \<open>false\<close> and
  changes nothing exactly when the two-point check \<open>ring_full\<close> holds, which is exactly
  when the ring holds \<open>mCapacity\<close> elements. Otherwise it returns \<open>true\<close>, the value is
  in slot \<open>mPushIndex mod mCapacity\<close>, the push index has advanced by one (to 0 at
  \<open>mIndexEnd\<close>), and \<open>size()\<close> has grown by one.
\<close>

theorem Emplace_false_iff_full:
  assumes "queue_inv q"
  shows "Emplace v q =
           (if ring_full q then Returns False q
            else Returns True
              (q\<lparr>mSlots := (mSlots q)[nat (mPushIndex q mod mCapacity q) := Some v],
                 mPushIndex := (if mPushIndex q + 1 < mIndexEnd q then mPushIndex q + 1 else 0),
                 mSize := mSize q + 1\<rparr>))
         \<and> ring_full q = (live_count q = mCapacity q)
         \<and> (\<forall>q'. Emplace v q = Returns True q' \<longrightarrow>
               size_q q' = size_q q + 1 \<and> contents q' = contents q @ [v] \<and> queue_inv q')"
proof -
  note i = inv_indices [OF assms] and g = inv_geometry [OF assms]
  have d: "sub32 (mPushIndex q) (mPopIndex q) = mPushIndex q - mPopIndex q"
    unfolding sub32_def using i g by (intro int32_id) (simp_all add: INT_MIN_def INT_MAX_def)
  have e: "sub32 (mCapacity q) (mIndexEnd q) = mCapacity q - mIndexEnd q"
    unfolding sub32_def using i g by (intro int32_id) (simp_all add: INT_MIN_def INT_MAX_def)
  have f: "ring_full q = (live_count q = mCapacity q)"
    using full_check [OF assms] by (simp add: ring_full_def Let_def d e)
  have b: "(mPushIndex q + 1) mod mIndexEnd q
         = (if mPushIndex q + 1 < mIndexEnd q then mPushIndex q + 1 else 0)"
  proof (cases "mPushIndex q + 1 < mIndexEnd q")
    case True
    then show ?thesis using i by simp
  next
    case False
    then have "mPushIndex q + 1 = mIndexEnd q" using i by linarith
    then show ?thesis using False by simp
  qed
  have p: "pushed v q = q\<lparr>mSlots := (mSlots q)[nat (mPushIndex q mod mCapacity q) := Some v],
                 mPushIndex := (if mPushIndex q + 1 < mIndexEnd q then mPushIndex q + 1 else 0),
                 mSize := mSize q + 1\<rparr>"
    unfolding pushed_def b ..
  have s: "size_q (pushed v q) = size_q q + 1" if "live_count q \<noteq> mCapacity q"
    using pushed_inv [OF assms that, of v] pushed_count [OF assms that, of v] assms
    by (simp add: queue_inv_def)
  show ?thesis
    using f p s pushed_contents [OF assms, of v] pushed_inv [OF assms, of v]
    by (auto simp: Emplace_inv [OF assms])
qed

theorem Emplace_false_iff_full_witness:
  "queue_inv (ring3 2147483645 2147483643 2 [Some 10, Some 11, None])
   \<and> Emplace 12 (ring3 2147483645 2147483643 2 [Some 10, Some 11, None])
       = Returns True (ring3 0 2147483643 3 [Some 10, Some 11, Some 12])
   \<and> ring_full (ring3 0 2147483643 3 [Some 10, Some 11, Some 12])
   \<and> Emplace 13 (ring3 0 2147483643 3 [Some 10, Some 11, Some 12])
       = Returns False (ring3 0 2147483643 3 [Some 10, Some 11, Some 12])"
proof -
  have a: "queue_inv (ring3 2147483645 2147483643 2 [Some 10, Some 11, None])"
    by (simp add: concrete_defs)
  have b: "queue_inv (ring3 0 2147483643 3 [Some 10, Some 11, Some 12])"
    by (simp add: concrete_defs)
  show ?thesis
    using a Emplace_false_iff_full [OF a, of 12] Emplace_false_iff_full [OF b, of 13]
    by (simp add: ring_full_def ring3_def)
qed

lemma and_or_not: "((a::int) OR b) AND NOT b = a AND NOT b"
  by (simp add: bit_eq_iff bit_simps) blast

lemma or_and_self: "((a::int) OR b) AND b = b"
  by (simp add: bit_eq_iff bit_simps) blast

lemma and_not_and: "((a::int) AND NOT b) AND b = 0"
  by (simp add: bit_eq_iff bit_simps)

lemma and_not_idem: "((a::int) AND NOT b) AND NOT b = a AND NOT b"
  by (simp add: bit_eq_iff bit_simps) 

lemma sSizeMask_neq0: "sSizeMask \<noteq> 0"
  by (simp add: sSizeMask_def int32_def)

text \<open>
  Claim C9. \<open>End_PopWaiting\<close> and \<open>Reset_PopWaiting\<close> write \<open>mSize\<close> only, the first
  setting and the second clearing the terminal flag: \<open>size()\<close>, \<open>empty()\<close>, both indices,
  the slots and the queued elements are the same before and after, in every state.
\<close>

theorem PopWaiting_frame:
  "size_q (End_PopWaiting q) = size_q q \<and> empty_q (End_PopWaiting q) = empty_q q
   \<and> End_PopWaiting q = q\<lparr>mSize := mSize (End_PopWaiting q)\<rparr>
   \<and> terminal_flag (End_PopWaiting q)
   \<and> mPushIndex (End_PopWaiting q) = mPushIndex q \<and> mPopIndex (End_PopWaiting q) = mPopIndex q
   \<and> mSlots (End_PopWaiting q) = mSlots q \<and> contents (End_PopWaiting q) = contents q
   \<and> size_q (Reset_PopWaiting q) = size_q q \<and> empty_q (Reset_PopWaiting q) = empty_q q
   \<and> Reset_PopWaiting q = q\<lparr>mSize := mSize (Reset_PopWaiting q)\<rparr>
   \<and> \<not> terminal_flag (Reset_PopWaiting q)
   \<and> mPushIndex (Reset_PopWaiting q) = mPushIndex q \<and> mPopIndex (Reset_PopWaiting q) = mPopIndex q
   \<and> mSlots (Reset_PopWaiting q) = mSlots q \<and> contents (Reset_PopWaiting q) = contents q"
  by (simp add: End_PopWaiting_def Reset_PopWaiting_def size_q_def empty_q_def terminal_flag_def
      contents_def live_count_def live_slot_def and_or_not or_and_self and_not_and and_not_idem
      sSizeMask_neq0)














text \<open>
  An index kept from an earlier use can lie at or above the new \<open>mIndexEnd\<close>: a queue of
  capacity 3 freed at index 2147483645 and allocated again with capacity 4 has
  \<open>mIndexEnd = 2147483644\<close>. The third push then lands on the slot of the first, and the
  pop returns the third value.
\<close>

lemma stale_index_after_reallocation:
  "Free (ring3 2147483645 2147483645 0 [None, None, None])
     = Returns 64 (freed (ring3 2147483645 2147483645 0 [None, None, None]))
   \<and> Allocate fixed_allocator 4 4 4 (freed (ring3 2147483645 2147483645 0 [None, None, None]))
        = Returns () (ring4 2147483645 2147483645 0 [None, None, None, None])
   \<and> run_ops [Push 1, Push 2, Push 3, PopOne] (ring4 2147483645 2147483645 0 [None, None, None, None])
        = Returns [Pushed True, Pushed True, Pushed True, Popped (Some 3)]
            (ring4 2 0 2 [Some 2, None, None, None])"
  by code_simp

text \<open>
  Claim C6, as stated, fails: an allocator that reports failure by returning \<open>nullptr\<close>
  makes \<open>Allocate\<close> abort on its assertion, like every other contract violation.
\<close>

theorem Allocate_null_result_counterexample:
  "Allocate exhausted_allocator 4 4 4 (Queue_default :: int Queue)
     = Aborts ''Memory allocation failed!''"
  by (simp add: Allocate_def exhausted_allocator_def Queue_default_def Is_Allocated_def)

text \<open>
  Claim C6, amended. On an unallocated queue and a positive capacity, a \<open>nullptr\<close> from the
  allocator ends \<open>Allocate\<close> with the diagnostic of the failed assertion; the allocator
  failure that reaches the caller is the exception the allocator throws, and it leaves the
  queue as it was, unallocated.
\<close>

theorem Allocate_allocator_failure:
  assumes "\<not> Is_Allocated q" and "0 < aCapacity"
  shows "(aAllocator (nat aCapacity * sizeof_DataType) (max sAlign alignof_DataType)
            = Alloc_returns nullptr \<longrightarrow>
          Allocate aAllocator sizeof_DataType alignof_DataType aCapacity q
            = Aborts ''Memory allocation failed!'')
       \<and> (aAllocator (nat aCapacity * sizeof_DataType) (max sAlign alignof_DataType)
            = Alloc_throws \<longrightarrow>
          Allocate aAllocator sizeof_DataType alignof_DataType aCapacity q = Throws q)"
  using assms by (simp add: Allocate_def Let_def)

theorem Allocate_allocator_failure_witness:
  "\<not> Is_Allocated (Queue_default :: int Queue)
   \<and> Allocate exhausted_allocator 4 4 4 (Queue_default :: int Queue)
       = Aborts ''Memory allocation failed!''
   \<and> Allocate throwing_allocator 4 4 4 (Queue_default :: int Queue) = Throws Queue_default
   \<and> mCapacity (Queue_default :: int Queue) = 0 \<and> mStorage (Queue_default :: int Queue) = nullptr"
proof -
  have u: "\<not> Is_Allocated (Queue_default :: int Queue)"
    by (simp add: Is_Allocated_def Queue_default_def)
  have c: "(0::int) < 4" by simp
  show ?thesis
    using u Allocate_allocator_failure [OF u c, of exhausted_allocator 4 4]
      Allocate_allocator_failure [OF u c, of throwing_allocator 4 4]
    by (simp add: exhausted_allocator_def throwing_allocator_def Queue_default_def)
qed

text \<open>
  Claim C8. \<open>Free\<close> aborts with a diagnostic on an unallocated queue and on a queue whose
  \<open>empty()\<close> is false; on an allocated empty queue it returns, never aborting, hands
  \<open>mStorage\<close> to the allocator and leaves the queue unallocated with capacity 0.
\<close>

theorem Free_requires_allocated_and_empty:
  "(if \<not> Is_Allocated q then Free q = Aborts ''No memory to free!''
    else if \<not> empty_q q then Free q = Aborts ''Can't free until empty!''
    else Free q = Returns (mStorage q) (q\<lparr>mStorage := nullptr, mCapacity := 0, mSlots := []\<rparr>))
   \<and> (\<forall>p q'. Free q = Returns p q' \<longrightarrow>
         Is_Allocated q \<and> empty_q q \<and> p = mStorage q
         \<and> \<not> Is_Allocated q' \<and> mCapacity q' = 0 \<and> mStorage q' = nullptr)"
  by (simp add: Free_def Is_Allocated_def)

theorem Free_requires_allocated_and_empty_witness:
  "Free (Queue_default :: int Queue) = Aborts ''No memory to free!''
   \<and> Free (ring3 2147483645 2147483643 2 [Some 10, Some 11, None]) = Aborts ''Can't free until empty!''
   \<and> Free (ring3 5 5 0 [None, None, None])
       = Returns 64 ((ring3 5 5 0 [None, None, None])\<lparr>mStorage := nullptr, mCapacity := 0, mSlots := []\<rparr>)
   \<and> \<not> Is_Allocated ((ring3 5 5 0 [None, None, None])\<lparr>mStorage := nullptr, mCapacity := 0, mSlots := []\<rparr>)"
  using Free_requires_allocated_and_empty [of "Queue_default :: int Queue"]
    Free_requires_allocated_and_empty [of "ring3 2147483645 2147483643 2 [Some 10, Some 11, None]"]
    Free_requires_allocated_and_empty [of "ring3 5 5 0 [None, None, None]"]
  by (simp add: Queue_default_def ring3_def Is_Allocated_def nullptr_def empty_q_def size_q_def
      sSizeMask_def int32_def)

text \<open>
  Claim C2. From an empty queue that satisfies the invariants, wherever its indices stand,
  any number of push/pop cycles (so \<open>k * capacity + r\<close> of them for every \<open>k\<close> and \<open>r\<close>)
  succeeds: every push returns \<open>true\<close>, every pop returns the value pushed in the same
  cycle, the indices advance modulo \<open>mIndexEnd\<close>, and the queue is empty again, as a further
  \<open>Pop\<close> reports. More generally every sequence of single pushes and pops observes what
  the bounded FIFO of the specification observes, full and empty included.
\<close>

theorem push_pop_cycles_fifo:
  assumes "queue_inv q" and "empty_q q"
  shows "(\<exists>q'. push_pop_cycles vs q = Returns (map (\<lambda>v. (True, Some v)) vs) q'
            \<and> queue_inv q' \<and> empty_q q' \<and> Pop q' = Returns None q'
            \<and> mPushIndex q' = (mPushIndex q + int (length vs)) mod mIndexEnd q
            \<and> mPopIndex q' = mPushIndex q')
       \<and> (\<exists>q'. run_ops ops q = Returns (fst (fifo_ops (nat (mCapacity q)) ops [])) q'
            \<and> queue_inv q' \<and> contents q' = snd (fifo_ops (nat (mCapacity q)) ops []))"
proof -
  from assms have c: "live_count q = 0" by (simp add: queue_inv_def empty_q_def)
  then have e: "contents q = []" by (simp add: contents_def)
  from cycles_fifo [OF assms(1) c, of vs] obtain q' where q':
    "push_pop_cycles vs q = Returns (map (\<lambda>v. (True, Some v)) vs) q'"
    "queue_inv q'" "live_count q' = 0"
    "mPushIndex q' = (mPushIndex q + int (length vs)) mod mIndexEnd q"
    "mPopIndex q' = mPushIndex q'" by blast
  from q'(2) have "size_q q' = live_count q'" by (simp add: queue_inv_def)
  then have "empty_q q'" using q'(3) by (simp add: empty_q_def)
  moreover have "Pop q' = Returns None q'" using q'(3) by (simp add: Pop_inv [OF q'(2)])
  ultimately have first: "\<exists>q'. push_pop_cycles vs q = Returns (map (\<lambda>v. (True, Some v)) vs) q'
            \<and> queue_inv q' \<and> empty_q q' \<and> Pop q' = Returns None q'
            \<and> mPushIndex q' = (mPushIndex q + int (length vs)) mod mIndexEnd q
            \<and> mPopIndex q' = mPushIndex q'"
    using q' by blast
  show ?thesis
    using first run_ops_refines [OF assms(1), of ops] unfolding e by blast
qed

theorem push_pop_cycles_fifo_witness:
  "queue_inv (ring3 2147483645 2147483645 0 [None, None, None])
   \<and> empty_q (ring3 2147483645 2147483645 0 [None, None, None])
   \<and> (\<exists>q'. push_pop_cycles [1, 2, 3, 4, 5, 6, 7] (ring3 2147483645 2147483645 0 [None, None, None])
          = Returns [(True, Some 1), (True, Some 2), (True, Some 3), (True, Some 4),
                     (True, Some 5), (True, Some 6), (True, Some 7)] q'
        \<and> mPushIndex q' = 6 \<and> mPopIndex q' = 6 \<and> empty_q q')
   \<and> (\<exists>q'. run_ops [Push 1, Push 2, Push 3, Push 4, PopOne, PopOne, Push 5, PopOne, PopOne, PopOne]
            (ring3 2147483645 2147483645 0 [None, None, None])
          = Returns [Pushed True, Pushed True, Pushed True, Pushed False, Popped (Some 1),
                     Popped (Some 2), Pushed True, Popped (Some 3), Popped (Some 5), Popped None] q')"
proof -
  have i: "queue_inv (ring3 2147483645 2147483645 0 [None, None, None])"
    by (simp add: concrete_defs)
  have e: "empty_q (ring3 2147483645 2147483645 0 [None, None, None])"
    by (simp add: empty_q_def size_q_def ring3_def)
  have m: "map (\<lambda>v. (True, Some v)) [1, 2, 3, 4, 5, 6, 7 :: int]
      = [(True, Some 1), (True, Some 2), (True, Some 3), (True, Some 4),
         (True, Some 5), (True, Some 6), (True, Some 7)]"
    by simp
  have f: "fst (fifo_ops (nat (mCapacity (ring3 2147483645 2147483645 0 [None, None, None])))
        [Push 1, Push 2, Push 3, Push 4, PopOne, PopOne, Push 5, PopOne, PopOne, PopOne] [])
      = [Pushed True, Pushed True, Pushed True, Pushed False, Popped (Some 1),
         Popped (Some 2), Pushed True, Popped (Some 3), Popped (Some 5), Popped None]"
    by (simp add: ring3_def)
  have p: "(mPushIndex (ring3 2147483645 2147483645 0 [None, None, None])
        + int (length [1, 2, 3, 4, 5, 6, 7 :: int]))
      mod mIndexEnd (ring3 2147483645 2147483645 0 [None, None, None]) = 6"
    by (simp add: ring3_def)
  note t = push_pop_cycles_fifo [OF i e, of "[1, 2, 3, 4, 5, 6, 7]"
        "[Push 1, Push 2, Push 3, Push 4, PopOne, PopOne, Push 5, PopOne, PopOne, PopOne]",
        unfolded m f p]
  show ?thesis
    using i e t by auto
qed


lemma ring_offset:
  assumes "s < c" "k < (c::nat)"
  shows "(k + c - s) mod c = (if s \<le> k then k - s else k + c - s)"
proof (cases "s \<le> k")
  case True
  then have "k + c - s = (k - s) + c" by simp
  then have "(k + c - s) mod c = (k - s) mod c" by simp
  then show ?thesis using True assms by simp
next
  case False
  then show ?thesis using assms by simp
qed

lemma nth_drop_diff: "d \<le> k \<Longrightarrow> d \<le> length L \<Longrightarrow> drop d L ! (k - d) = L ! k"
  by simp

lemma length_ring_write:
  assumes "s < length slots" "length xs \<le> length slots"
  shows "length (ring_write xs s slots) = length slots"
  using assms by (auto simp: ring_write_def Let_def min_def)

lemma ring_write_nth:
  assumes "s < length slots" "length xs \<le> length slots" "k < length slots"
  shows "ring_write xs s slots ! k
         = (if (k + length slots - s) mod length slots < length xs
            then Some (xs ! ((k + length slots - s) mod length slots)) else slots ! k)"
proof -
  let ?c = "length slots" and ?n = "length xs"
  note o = ring_offset [OF assms(1,3)]
  show ?thesis
  proof (cases "s + ?n \<le> ?c")
    case True
    then have "min ?n (?c - s) = ?n" by linarith
    then have w: "ring_write xs s slots = take s slots @ map Some xs @ drop (s + ?n) slots"
      by (simp add: ring_write_def Let_def)
    show ?thesis
      unfolding w o using assms True by (auto simp: nth_append)
  next
    case False
    then have "min ?n (?c - s) = ?c - s" "?n - (?c - s) = s + ?n - ?c" "s + (?c - s) = ?c"
      using assms by linarith+
    then have w: "ring_write xs s slots
        = map Some (drop (?c - s) xs) @ drop (s + ?n - ?c) (take s slots @ map Some (take (?c - s) xs))"
      by (simp add: ring_write_def Let_def)
    have d: "s + ?n - ?c \<le> s" using assms by simp
    show ?thesis
    proof (cases "k < s + ?n - ?c")
      case True
      then have j: "(if s \<le> k then k - s else k + ?c - s) = (?c - s) + k" and l: "(?c - s) + k < ?n"
        using assms d by simp_all
      have kl: "k < length (map Some (drop (?c - s) xs))" using True assms by simp
      have kx: "(?c - s) + k < length xs" using True assms by linarith
      have "ring_write xs s slots ! k = map Some (drop (?c - s) xs) ! k"
        unfolding w using kl by (rule nth_append_left)
      also have "\<dots> = Some (xs ! ((?c - s) + k))" using kl kx by simp
      finally have "ring_write xs s slots ! k = Some (xs ! ((?c - s) + k))" .
      then show ?thesis unfolding o j using l by simp
    next
      case b: False
      then have kl: "length (map Some (drop (?c - s) xs)) \<le> k" using assms False by simp
      have kd: "k - length (map Some (drop (?c - s) xs)) = k - (s + ?n - ?c)"
        using assms False by simp
      have "ring_write xs s slots ! k
          = drop (s + ?n - ?c) (take s slots @ map Some (take (?c - s) xs)) ! (k - (s + ?n - ?c))"
        unfolding w using nth_append_right [OF kl] kd by simp
      also have "\<dots> = (take s slots @ map Some (take (?c - s) xs)) ! k"
        by (rule nth_drop_diff) (use b assms False in simp_all)
      finally have r: "ring_write xs s slots ! k = (take s slots @ map Some (take (?c - s) xs)) ! k" .
      show ?thesis
      proof (cases "s \<le> k")
        case True
        then have "k - s < ?c - s" "k - s < ?n" using assms False by simp_all
        then show ?thesis unfolding r o using True assms by (simp add: nth_append)
      next
        case c: False
        then have "\<not> k + ?c - s < ?n" using b by simp
        then show ?thesis unfolding r o using c assms by (simp add: nth_append)
      qed
    qed
  qed
qed

lemma length_ring_clear:
  assumes "s < length slots" "n \<le> length slots"
  shows "length (ring_clear n s slots) = length slots"
  using assms by (auto simp: ring_clear_def Let_def min_def)

lemma ring_clear_nth:
  assumes "s < length slots" "n \<le> length slots" "k < length slots"
  shows "ring_clear n s slots ! k
         = (if (k + length slots - s) mod length slots < n then None else slots ! k)"
proof -
  let ?c = "length slots"
  note o = ring_offset [OF assms(1,3)]
  show ?thesis
  proof (cases "s + n \<le> ?c")
    case True
    then have "min n (?c - s) = n" by linarith
    then have w: "ring_clear n s slots = take s slots @ replicate n None @ drop (s + n) slots"
      by (simp add: ring_clear_def Let_def)
    show ?thesis
      unfolding w o using assms True by (auto simp: nth_append)
  next
    case False
    then have "min n (?c - s) = ?c - s" "n - (?c - s) = s + n - ?c" "s + (?c - s) = ?c"
      using assms by linarith+
    then have w: "ring_clear n s slots
        = replicate (s + n - ?c) None @ drop (s + n - ?c) (take s slots @ replicate (?c - s) None)"
      by (simp add: ring_clear_def Let_def)
    have d: "s + n - ?c \<le> s" using assms by simp
    show ?thesis
    proof (cases "k < s + n - ?c")
      case True
      then have j: "(if s \<le> k then k - s else k + ?c - s) = (?c - s) + k" and l: "(?c - s) + k < n"
        using assms d by simp_all
      have kl: "k < length (replicate (s + n - ?c) (None :: 'a option))" using True by simp
      have "ring_clear n s slots ! k = replicate (s + n - ?c) None ! k"
        unfolding w using kl by (rule nth_append_left)
      then have "ring_clear n s slots ! k = None" using True by simp
      then show ?thesis unfolding o j using l by simp
    next
      case b: False
      then have kl: "length (replicate (s + n - ?c) (None :: 'a option)) \<le> k" by simp
      have "ring_clear n s slots ! k
          = drop (s + n - ?c) (take s slots @ replicate (?c - s) None) ! (k - (s + n - ?c))"
        unfolding w using nth_append_right [OF kl] by simp
      also have "\<dots> = (take s slots @ replicate (?c - s) None) ! k"
        by (rule nth_drop_diff) (use b assms False in simp_all)
      finally have r: "ring_clear n s slots ! k = (take s slots @ replicate (?c - s) None) ! k" .
      show ?thesis
      proof (cases "s \<le> k")
        case True
        then have "k - s < ?c - s" "k - s < n" using assms False by simp_all
        then show ?thesis unfolding r o using True assms by (simp add: nth_append)
      next
        case c: False
        then have "\<not> k + ?c - s < n" using b by simp
        then show ?thesis unfolding r o using c assms by (simp add: nth_append)
      qed
    qed
  qed
qed

lemma length_ring_read:
  assumes "s < length slots" "n \<le> length slots"
  shows "length (ring_read n s slots) = n"
  using assms by (auto simp: ring_read_def Let_def min_def)

lemma ring_read_nth:
  assumes "s < length slots" "n \<le> length slots" "j < n"
  shows "ring_read n s slots ! j = slots ! ((s + j) mod length slots)"
proof -
  let ?c = "length slots"
  show ?thesis
  proof (cases "s + j < ?c")
    case True
    then show ?thesis using assms by (auto simp: ring_read_def Let_def min_def nth_append)
  next
    case False
    then have "s + j = (s + j - ?c) + ?c" by simp
    then have "(s + j) mod ?c = (s + j - ?c) mod ?c" by (metis mod_add_self2)
    also have "\<dots> = s + j - ?c" using assms by simp
    finally have m: "(s + j) mod ?c = s + j - ?c" .
    have "ring_read n s slots ! j = take (n - (?c - s)) slots ! (j - (?c - s))"
      using assms False by (auto simp: ring_read_def Let_def min_def nth_append)
    also have "\<dots> = slots ! (j - (?c - s))" using assms False by simp
    also have "j - (?c - s) = s + j - ?c" using assms False by simp
    finally show ?thesis unfolding m .
  qed
qed

lemma move_ok:
  assumes "Is_Allocated q" "0 < n" "nat n \<le> length first" "0 \<le> dest"
    and "nat dest + nat n \<le> length (mSlots q)"
  shows "uninitialized_move_n first n dest q
         = Some (q\<lparr>mSlots := take (nat dest) (mSlots q) @ map Some (take (nat n) first)
                          @ drop (nat dest + nat n) (mSlots q)\<rparr>)"
proof -
  have "slot_ok q dest" "slot_ok q (dest + n - 1)"
    using assms by (auto simp: slot_ok_def)
  then show ?thesis using assms by (simp add: uninitialized_move_n_def)
qed

lemma free_slots:
  assumes "queue_inv q" "mPopIndex q + mCapacity q \<le> INT_MAX"
  shows "(let cMaxPushIndex = add32 (mPopIndex q) (mCapacity q);
              cSlots = sub32 cMaxPushIndex (mPushIndex q)
          in sub32 cSlots (if cSlots \<ge> mIndexEnd q then mIndexEnd q else 0))
         = mCapacity q - live_count q"
proof -
  note i = inv_indices [OF assms(1)] and g = inv_geometry [OF assms(1)]
  have a: "add32 (mPopIndex q) (mCapacity q) = mPopIndex q + mCapacity q"
    unfolding add32_def using i g assms(2) by (intro int32_id) (simp_all add: INT_MIN_def)
  have b: "sub32 (mPopIndex q + mCapacity q) (mPushIndex q)
         = mPopIndex q + mCapacity q - mPushIndex q"
    unfolding sub32_def using i g assms(2)
    by (intro int32_id) (simp_all add: INT_MIN_def INT_MAX_def)
  have c: "sub32 (mPopIndex q + mCapacity q - mPushIndex q) 0
         = mPopIndex q + mCapacity q - mPushIndex q"
    using int32_id [of "mPopIndex q + mCapacity q - mPushIndex q"] i g assms(2)
    by (simp add: sub32_def INT_MIN_def INT_MAX_def)
  have d: "sub32 (mPopIndex q + mCapacity q - mPushIndex q) (mIndexEnd q)
         = mPopIndex q + mCapacity q - mPushIndex q - mIndexEnd q"
    if "mIndexEnd q \<le> mPopIndex q + mCapacity q - mPushIndex q"
    unfolding sub32_def using i g assms(2) that
    by (intro int32_id) (simp_all add: INT_MIN_def INT_MAX_def)
  note lc = live_count_delta [OF assms(1)]
  show ?thesis
  proof (cases "mPopIndex q \<le> mPushIndex q")
    case True
    then have "\<not> mIndexEnd q \<le> mPopIndex q + mCapacity q - mPushIndex q" using g by linarith
    then show ?thesis unfolding Let_def a b using True lc by (simp add: c)
  next
    case False
    then have l: "live_count q = mPushIndex q - mPopIndex q + mIndexEnd q" using lc by simp
    then have "mIndexEnd q \<le> mPopIndex q + mCapacity q - mPushIndex q" using i by linarith
    then show ?thesis unfolding Let_def a b using l by (simp add: d)
  qed
qed

lemma Increase_Index_mod:
  assumes "queue_inv q" "0 \<le> a" "a < mIndexEnd q" "0 \<le> n" "n \<le> mCapacity q" "a + n \<le> INT_MAX"
  shows "Increase_Index q a n = (a + n) mod mIndexEnd q"
proof -
  note g = inv_geometry [OF assms(1)]
  have s: "add32 a n = a + n"
    unfolding add32_def using assms by (intro int32_id) (simp_all add: INT_MIN_def)
  show ?thesis
  proof (cases "a + n \<ge> mIndexEnd q")
    case True
    have "sub32 (a + n) (mIndexEnd q) = a + n - mIndexEnd q"
      unfolding sub32_def using assms g True by (intro int32_id) (simp_all add: INT_MIN_def INT_MAX_def)
    moreover have "(a + n) mod mIndexEnd q = (a + n - mIndexEnd q) mod mIndexEnd q" by simp
    moreover have "(a + n - mIndexEnd q) mod mIndexEnd q = a + n - mIndexEnd q"
      using assms g True by (intro mod_pos_pos_trivial) linarith+
    ultimately show ?thesis using True by (simp add: Increase_Index_def s)
  next
    case False
    have "sub32 (a + n) 0 = a + n"
      using int32_id [of "a + n"] assms by (simp add: sub32_def INT_MIN_def)
    moreover have "(a + n) mod mIndexEnd q = a + n"
      using assms False by (intro mod_pos_pos_trivial) linarith+
    ultimately show ?thesis using False by (simp add: Increase_Index_def s)
  qed
qed

lemma Emplace_Multiple_inv:
  fixes xs :: "'a list" and q :: "'a Queue"
  defines "n \<equiv> min (int (length xs)) (mCapacity q - live_count q)"
  assumes inv: "queue_inv q" and len: "int (length xs) \<le> INT_MAX"
    and po: "mPopIndex q + mCapacity q \<le> INT_MAX" and pu: "mPushIndex q + n \<le> INT_MAX"
  shows "Emplace_Multiple xs q = Returns (drop (nat n) xs) (pushed_many (take (nat n) xs) q)"
proof -
  note i = inv_indices [OF inv] and g = inv_geometry [OF inv]
  let ?c = "mCapacity q" and ?S = "mSlots q"
  define s where "s = mPushIndex q mod mCapacity q"
  from inv have al: "Is_Allocated q" and ls: "length ?S = nat ?c" by (simp_all add: queue_inv_def)
  have n0: "0 \<le> n" and nc: "n \<le> ?c" and nl: "nat n \<le> length xs"
    using i by (simp_all add: n_def)
  have sz: "int_of_size_t (length xs) = int (length xs)"
    unfolding int_of_size_t_def using len by (intro int32_id) (simp_all add: INT_MIN_def)
  have num: "min (int_of_size_t (length xs))
      (let cMaxPushIndex = add32 (mPopIndex q) (mCapacity q);
           cSlots = sub32 cMaxPushIndex (mPushIndex q)
       in sub32 cSlots (if cSlots \<ge> mIndexEnd q then mIndexEnd q else 0)) = n"
    unfolding free_slots [OF inv po] sz n_def ..
  define body where "body = (\<lambda>cNumToPush.
      if cNumToPush = 0 then Returns xs q
      else
        (case rem32 (mPushIndex q) (mCapacity q) of
           None \<Rightarrow> Undefined_Behaviour
         | Some cPushIndex \<Rightarrow>
             let cDistanceBeyondEnd = sub32 (add32 cPushIndex cNumToPush) (mCapacity q);
                 pushed =
                   (if cDistanceBeyondEnd \<le> 0
                    then uninitialized_move_n xs cNumToPush cPushIndex q
                    else
                      let cInitialLength = sub32 cNumToPush cDistanceBeyondEnd
                      in case uninitialized_move_n xs cInitialLength cPushIndex q of
                           None \<Rightarrow> None
                         | Some q' \<Rightarrow>
                             (case span_from xs cInitialLength of
                                None \<Rightarrow> None
                              | Some cToPush \<Rightarrow> uninitialized_move_n cToPush cDistanceBeyondEnd 0 q'))
             in case pushed of
                  None \<Rightarrow> Undefined_Behaviour
                | Some q1 \<Rightarrow>
                    let cNewPushIndex = Increase_Index q1 (mPushIndex q) cNumToPush;
                        q2 = q1\<lparr>mPushIndex := cNewPushIndex\<rparr>;
                        q3 = Increase_Size cNumToPush q2
                    in case span_from xs cNumToPush of
                         None \<Rightarrow> Undefined_Behaviour
                       | Some cRemainingBegin \<Rightarrow>
                           (case span_of cRemainingBegin (sub32 (int_of_size_t (length xs)) cNumToPush) of
                              None \<Rightarrow> Undefined_Behaviour
                            | Some cRemaining \<Rightarrow> Returns cRemaining q3)))"
  have "Emplace_Multiple xs q = body (min (int_of_size_t (length xs))
      (let cMaxPushIndex = add32 (mPopIndex q) (mCapacity q);
           cSlots = sub32 cMaxPushIndex (mPushIndex q)
       in sub32 cSlots (if cSlots \<ge> mIndexEnd q then mIndexEnd q else 0)))"
    by (simp add: Emplace_Multiple_def body_def Let_def)
  then have em: "Emplace_Multiple xs q = body n" unfolding num .
  have s0: "0 \<le> s" and s1: "s < ?c" using g by (simp_all add: s_def)
  show ?thesis
  proof (cases "n = 0")
    case True
    have "ring_write [] (nat s) ?S = ?S" by (simp add: ring_write_def)
    moreover have "mPushIndex q mod mIndexEnd q = mPushIndex q"
      using i by (intro mod_pos_pos_trivial)
    ultimately have "pushed_many [] q = q" by (simp add: pushed_many_def s_def)
    then show ?thesis using True by (simp add: em body_def)
  next
    case False
    then have np: "0 < n" using n0 by simp
    have r: "rem32 (mPushIndex q) ?c = Some s" using i g by (simp add: rem32_nonneg s_def)
    have a: "add32 s n = s + n"
      unfolding add32_def using s0 s1 n0 nc g by (intro int32_id) (simp_all add: INT_MIN_def INT_MAX_def)
    have d: "sub32 (s + n) ?c = s + n - ?c"
      unfolding sub32_def using s0 s1 n0 nc g by (intro int32_id) (simp_all add: INT_MIN_def INT_MAX_def)
    have lt: "length (take (nat n) xs) = nat n" using nl by simp
    have mn: "min (length xs) (nat n) = nat n" using nl by simp
    have moved: "(if s + n - ?c \<le> 0 then uninitialized_move_n xs n s q
          else let cInitialLength = sub32 n (s + n - ?c)
               in case uninitialized_move_n xs cInitialLength s q of
                    None \<Rightarrow> None
                  | Some q' \<Rightarrow>
                      (case span_from xs cInitialLength of
                         None \<Rightarrow> None
                       | Some cToPush \<Rightarrow> uninitialized_move_n cToPush (s + n - ?c) 0 q'))
        = Some (q\<lparr>mSlots := ring_write (take (nat n) xs) (nat s) ?S\<rparr>)"
    proof (cases "s + n - ?c \<le> 0")
      case True
      then have "nat s + nat n \<le> length ?S" using ls s0 n0 by linarith
      then have m: "uninitialized_move_n xs n s q
          = Some (q\<lparr>mSlots := take (nat s) ?S @ map Some (take (nat n) xs) @ drop (nat s + nat n) ?S\<rparr>)"
        using al np nl s0 by (intro move_ok)
      have "min (nat n) (length ?S - nat s) = nat n" using True ls s0 n0 by linarith
      then have "ring_write (take (nat n) xs) (nat s) ?S
          = take (nat s) ?S @ map Some (take (nat n) xs) @ drop (nat s + nat n) ?S"
        by (simp add: ring_write_def Let_def mn)
      then show ?thesis using True m by simp
    next
      case False
      let ?k = "?c - s" and ?d = "s + n - ?c"
      have il: "sub32 n ?d = ?k"
        unfolding sub32_def using s0 s1 n0 nc g
        by (simp add: int32_id INT_MIN_def INT_MAX_def)
      have kp: "0 < ?k" and kn: "?k < n" using s1 False by simp_all
      have "nat s + nat ?k \<le> length ?S" using ls s0 s1 by linarith
      then have m1: "uninitialized_move_n xs ?k s q
          = Some (q\<lparr>mSlots := take (nat s) ?S @ map Some (take (nat ?k) xs) @ drop (nat s + nat ?k) ?S\<rparr>)"
        using al kp nl kn s0 by (intro move_ok) simp_all
      have dr: "drop (nat s + nat ?k) ?S = []" using ls s0 s1 by simp
      let ?q1 = "q\<lparr>mSlots := take (nat s) ?S @ map Some (take (nat ?k) xs)\<rparr>"
      have sf: "span_from xs ?k = Some (drop (nat ?k) xs)"
        using kp kn nl by (simp add: span_from_def)
      have l1: "length (mSlots ?q1) = nat ?c" using ls s0 s1 nl kn by simp
      have m2: "uninitialized_move_n (drop (nat ?k) xs) ?d 0 ?q1
          = Some (?q1\<lparr>mSlots := take (nat 0) (mSlots ?q1) @ map Some (take (nat ?d) (drop (nat ?k) xs))
                 @ drop (nat 0 + nat ?d) (mSlots ?q1)\<rparr>)"
      proof (rule move_ok)
        show "Is_Allocated ?q1" using al by (simp add: Is_Allocated_def)
        show "0 < ?d" using False by simp
        show "nat ?d \<le> length (drop (nat ?k) xs)" using nl s0 s1 n0 False by simp
        show "(0::int) \<le> 0" by simp
        show "nat 0 + nat ?d \<le> length (mSlots ?q1)" unfolding l1 using nc s1 by simp
      qed
      have mk: "min (nat n) (length ?S - nat s) = nat ?k" using False ls s0 s1 n0 by linarith
      have e1: "take (nat ?k) (take (nat n) xs) = take (nat ?k) xs" using kn by (simp add: min_def)
      have e2: "drop (nat ?k) (take (nat n) xs) = take (nat ?d) (drop (nat ?k) xs)"
      proof -
        have "nat n - nat ?k = nat ?d" using s0 s1 n0 False by linarith
        then show ?thesis by (simp add: drop_take)
      qed
      have e3: "nat n - nat ?k = nat ?d" using s0 s1 n0 False by linarith
      have w: "ring_write (take (nat n) xs) (nat s) ?S
          = map Some (take (nat ?d) (drop (nat ?k) xs))
            @ drop (nat ?d) (take (nat s) ?S @ map Some (take (nat ?k) xs))"
        unfolding ring_write_def Let_def lt mk e1 e2 e3 dr by (simp only: append_Nil2)
      show ?thesis
        using False by (simp add: il m1 dr sf m2 w Let_def)
    qed
    have mA: "uninitialized_move_n xs n s q
        = Some (q\<lparr>mSlots := ring_write (take (nat n) xs) (nat s) ?S\<rparr>)" if "s + n \<le> ?c"
      using moved that by simp
    have mB: "(case uninitialized_move_n xs (sub32 n (s + n - ?c)) s q of
            None \<Rightarrow> None
          | Some q' \<Rightarrow>
              (case span_from xs (sub32 n (s + n - ?c)) of
                 None \<Rightarrow> None
               | Some cToPush \<Rightarrow> uninitialized_move_n cToPush (s + n - ?c) 0 q'))
        = Some (q\<lparr>mSlots := ring_write (take (nat n) xs) (nat s) ?S\<rparr>)" if "\<not> s + n \<le> ?c"
      using moved that by (simp add: Let_def)
    have ii: "Increase_Index q' (mPushIndex q) n = (mPushIndex q + n) mod mIndexEnd q"
      if "mIndexEnd q' = mIndexEnd q" for q' :: "'a Queue"
    proof -
      have "Increase_Index q' (mPushIndex q) n = Increase_Index q (mPushIndex q) n"
        unfolding Increase_Index_def that ..
      then show ?thesis using Increase_Index_mod [OF inv i(1) i(2) n0 nc pu] by simp
    qed
    have "mSize q + n \<le> INT_MAX" "INT_MIN \<le> mSize q + n"
      using inv_mSize [OF inv] i g n0 by (auto simp: INT_MIN_def INT_MAX_def n_def)
    then have az: "add32 (mSize q) n = mSize q + n"
      unfolding add32_def by (intro int32_id)
    have sf2: "span_from xs n = Some (drop (nat n) xs)"
      using n0 nl by (simp add: span_from_def)
    have sb: "sub32 (int (length xs)) n = int (length xs) - n"
      unfolding sub32_def using len n0 nl by (intro int32_id) (simp_all add: INT_MIN_def)
    have so: "span_of (drop (nat n) xs) (int (length xs) - n) = Some (drop (nat n) xs)"
    proof -
      have "n \<le> int (length xs)" using n0 nl by linarith
      moreover have "nat (int (length xs) - n) = length xs - nat n" using n0 nl by linarith
      ultimately show ?thesis by (simp add: span_of_def)
    qed
    have pm: "pushed_many (take (nat n) xs) q
        = q\<lparr>mSlots := ring_write (take (nat n) xs) (nat s) ?S,
            mPushIndex := (mPushIndex q + n) mod mIndexEnd q, mSize := mSize q + n\<rparr>"
      using n0 by (simp add: pushed_many_def mn s_def)
    show ?thesis
      unfolding em body_def sz
      using False by (simp add: r a d mA mB ii az sf2 sb so pm Increase_Size_def Let_def)
  qed
qed

lemma count_mod_capacity:
  assumes "queue_inv q"
  shows "(mPushIndex q - mPopIndex q) mod mCapacity q = live_count q mod mCapacity q"
  using inv_geometry(4) [OF assms] by (simp add: live_count_def mod_mod_cancel)

lemma push_offset:
  assumes "queue_inv q" "i < nat (mCapacity q)"
  shows "(live_slot q i + nat (mCapacity q) - nat (mPushIndex q mod mCapacity q)) mod nat (mCapacity q)
         = (if nat (live_count q) \<le> i then i - nat (live_count q)
            else i + nat (mCapacity q) - nat (live_count q))"
proof -
  note c = inv_indices [OF assms(1)] and g = inv_geometry [OF assms(1)]
  let ?c = "mCapacity q"
  define s where "s = mPushIndex q mod ?c"
  define k where "k = (mPopIndex q + int i) mod ?c"
  have s: "0 \<le> s" "s < ?c" and k: "0 \<le> k" "k < ?c" using g by (simp_all add: s_def k_def)
  have "int ((nat k + nat ?c - nat s) mod nat ?c) = (k + ?c - s) mod ?c"
    using s k g by (simp add: zmod_int of_nat_diff)
  also have "\<dots> = (k - s) mod ?c"
  proof -
    have "k + ?c - s = k - s + ?c" by simp
    then show ?thesis by (simp only: mod_add_self2)
  qed
  also have "\<dots> = (mPopIndex q + int i - mPushIndex q) mod ?c"
    unfolding s_def k_def by (rule mod_diff_eq)
  also have "\<dots> = (int i - (mPushIndex q - mPopIndex q)) mod ?c" by (simp add: algebra_simps)
  also have "\<dots> = (int i - (mPushIndex q - mPopIndex q) mod ?c) mod ?c"
    by (rule mod_diff_right_eq [symmetric])
  also have "\<dots> = (int i - live_count q) mod ?c"
    by (simp add: count_mod_capacity [OF assms(1)] mod_simps)
  finally have e: "int ((nat k + nat ?c - nat s) mod nat ?c) = (int i - live_count q) mod ?c" .
  show ?thesis
  proof (cases "nat (live_count q) \<le> i")
    case True
    then have "(int i - live_count q) mod ?c = int i - live_count q"
      using assms(2) c by (intro mod_pos_pos_trivial) linarith+
    then have "int ((nat k + nat ?c - nat s) mod nat ?c) = int (i - nat (live_count q))"
      using e True c by (simp add: of_nat_diff)
    then have "(nat k + nat ?c - nat s) mod nat ?c = i - nat (live_count q)" by (simp only: of_nat_eq_iff)
    then show ?thesis using True by (simp add: live_slot_def k_def s_def)
  next
    case False
    have "(int i - live_count q) mod ?c = (int i - live_count q + ?c) mod ?c" by simp
    also have "\<dots> = int i - live_count q + ?c"
      using False assms(2) c by (intro mod_pos_pos_trivial) linarith+
    finally have "int ((nat k + nat ?c - nat s) mod nat ?c) = int (i + nat ?c - nat (live_count q))"
      using e False c g by (simp add: of_nat_diff)
    then have "(nat k + nat ?c - nat s) mod nat ?c = i + nat ?c - nat (live_count q)"
      by (simp only: of_nat_eq_iff)
    then show ?thesis using False by (simp add: live_slot_def k_def s_def)
  qed
qed

lemma pushed_many_slots_nth:
  assumes "queue_inv q" "int (length ys) \<le> mCapacity q - live_count q" "i < nat (mCapacity q)"
  shows "mSlots (pushed_many ys q) ! live_slot q i
         = (if nat (live_count q) \<le> i \<and> i < nat (live_count q) + length ys
            then Some (ys ! (i - nat (live_count q))) else mSlots q ! live_slot q i)"
proof -
  note c = inv_indices [OF assms(1)] and g = inv_geometry [OF assms(1)]
  from assms(1) have l: "length (mSlots q) = nat (mCapacity q)" by (simp add: queue_inv_def)
  have s: "nat (mPushIndex q mod mCapacity q) < length (mSlots q)"
    using g l by (simp add: nat_less_iff)
  have n: "length ys \<le> length (mSlots q)" using assms(2) c l by linarith
  have k: "live_slot q i < length (mSlots q)" using live_slot_less [OF g(1)] l by simp
  have "mSlots (pushed_many ys q) ! live_slot q i
      = ring_write ys (nat (mPushIndex q mod mCapacity q)) (mSlots q) ! live_slot q i"
    by (simp add: pushed_many_def)
  also have "\<dots> = (if (live_slot q i + nat (mCapacity q) - nat (mPushIndex q mod mCapacity q))
                          mod nat (mCapacity q) < length ys
                     then Some (ys ! ((live_slot q i + nat (mCapacity q)
                            - nat (mPushIndex q mod mCapacity q)) mod nat (mCapacity q)))
                     else mSlots q ! live_slot q i)"
    using ring_write_nth [OF s n k] unfolding l .
  finally show ?thesis
    unfolding push_offset [OF assms(1,3)] using assms(2,3) c by (auto simp: not_le)
qed

lemma pushed_many_count:
  assumes "queue_inv q" "int (length ys) \<le> mCapacity q - live_count q"
  shows "live_count (pushed_many ys q) = live_count q + int (length ys)"
proof -
  note i = inv_indices [OF assms(1)] and g = inv_geometry [OF assms(1)]
  let ?e = "mIndexEnd q"
  have "live_count (pushed_many ys q)
      = ((mPushIndex q + int (length ys)) mod ?e - mPopIndex q) mod ?e"
    by (simp add: live_count_def pushed_many_def)
  also have "\<dots> = ((mPushIndex q - mPopIndex q) mod ?e + int (length ys)) mod ?e"
    by (simp add: mod_simps algebra_simps)
  also have "\<dots> = live_count q + int (length ys)"
    unfolding live_count_def [symmetric] using i g assms(2) by (intro mod_pos_pos_trivial) linarith+
  finally show ?thesis .
qed

lemma pushed_many_live_slot [simp]: "live_slot (pushed_many ys q) i = live_slot q i"
  by (simp add: live_slot_def pushed_many_def)

lemma pushed_many_contents:
  assumes "queue_inv q" "int (length ys) \<le> mCapacity q - live_count q"
  shows "contents (pushed_many ys q) = contents q @ ys"
proof (rule nth_equalityI)
  note c = inv_indices [OF assms(1)]
  have n: "nat (live_count (pushed_many ys q)) = nat (live_count q) + length ys"
    using pushed_many_count [OF assms] c by (simp add: nat_add_distrib)
  show "length (contents (pushed_many ys q)) = length (contents q @ ys)" using n by simp
  fix i assume "i < length (contents (pushed_many ys q))"
  then have i: "i < nat (live_count q) + length ys" using n by simp
  then have ic: "i < nat (mCapacity q)" using assms(2) c by linarith
  have "contents (pushed_many ys q) ! i = the (mSlots (pushed_many ys q) ! live_slot q i)"
    using i n by (simp add: contents_nth)
  also have "\<dots> = (contents q @ ys) ! i"
    unfolding pushed_many_slots_nth [OF assms ic] using i
    by (auto simp: nth_append contents_nth)
  finally show "contents (pushed_many ys q) ! i = (contents q @ ys) ! i" .
qed

lemma pushed_many_inv:
  assumes "queue_inv q" "int (length ys) \<le> mCapacity q - live_count q"
  shows "queue_inv (pushed_many ys q)"
proof -
  note c = inv_indices [OF assms(1)] and g = inv_geometry [OF assms(1)]
  from assms(1) have l: "length (mSlots q) = nat (mCapacity q)" by (simp add: queue_inv_def)
  have n: "live_count (pushed_many ys q) = live_count q + int (length ys)"
    by (rule pushed_many_count [OF assms])
  have e: "0 < mIndexEnd q" using c by linarith
  have live: "list_all (\<lambda>i. mSlots (pushed_many ys q) ! live_slot (pushed_many ys q) i \<noteq> None)
               [0..<nat (live_count (pushed_many ys q))]"
  proof -
    have "mSlots (pushed_many ys q) ! live_slot q i \<noteq> None"
      if "i < nat (live_count q + int (length ys))" for i
    proof -
      from that have ic: "i < nat (mCapacity q)" using assms(2) c by linarith
      show ?thesis
      proof (cases "i < nat (live_count q)")
        case True
        then show ?thesis
          unfolding pushed_many_slots_nth [OF assms ic] using inv_live [OF assms(1) True] by simp
      next
        case False
        then show ?thesis
          unfolding pushed_many_slots_nth [OF assms ic] using that c by (simp add: nat_add_distrib)
      qed
    qed
    then show ?thesis by (simp add: n list_all_iff)
  qed
  have sz: "size_q (pushed_many ys q) = live_count q + int (length ys)"
  proof -
    have "size_q (pushed_many ys q) = (mSize q mod 2147483648 + int (length ys)) mod 2147483648"
      by (simp add: size_q_mod pushed_many_def mod_simps)
    also have "\<dots> = (live_count q + int (length ys)) mod 2147483648"
      using assms(1) by (simp add: queue_inv_def size_q_mod)
    also have "\<dots> = live_count q + int (length ys)"
      using c g assms(2) by (intro mod_pos_pos_trivial) (simp_all add: INT_MAX_def)
    finally show ?thesis .
  qed
  have ms: "INT_MIN \<le> mSize (pushed_many ys q) \<and> mSize (pushed_many ys q) \<le> INT_MAX"
    using inv_mSize [OF assms(1)] c g assms(2) by (auto simp: pushed_many_def INT_MIN_def INT_MAX_def)
  have ln: "length (mSlots (pushed_many ys q)) = nat (mCapacity q)"
  proof -
    have a: "nat (mPushIndex q mod mCapacity q) < length (mSlots q)"
      using g l by (simp add: nat_less_iff)
    have b: "length ys \<le> length (mSlots q)" using assms(2) c l by linarith
    show ?thesis using length_ring_write [OF a b] l by (simp add: pushed_many_def)
  qed
  have rest: "Is_Allocated (pushed_many ys q) \<and> mCapacity (pushed_many ys q) = mCapacity q
      \<and> mIndexEnd (pushed_many ys q) = mIndexEnd q \<and> mPopIndex (pushed_many ys q) = mPopIndex q"
    using assms(1) by (simp add: queue_inv_def pushed_many_def Is_Allocated_def)
  have pi: "0 \<le> mPushIndex (pushed_many ys q) \<and> mPushIndex (pushed_many ys q) < mIndexEnd q"
    using e by (simp add: pushed_many_def)
  show ?thesis
    unfolding queue_inv_def
    using rest pi ms sz live n ln assms c g
    by (simp add: queue_inv_def)
qed

lemma pop_ok:
  assumes "Is_Allocated q" "0 \<le> n" "0 \<le> p" "nat p + nat n \<le> length (mSlots q)"
    and "None \<notin> set (take (nat n) (drop (nat p) (mSlots q)))"
  shows "cPopAndDestroy p n (c, q)
         = Some (insert_end (map the (take (nat n) (drop (nat p) (mSlots q)))) c,
                 q\<lparr>mSlots := take (nat p) (mSlots q) @ replicate (nat n) None
                        @ drop (nat p + nat n) (mSlots q)\<rparr>)"
  using assms by (simp add: cPopAndDestroy_def Let_def)

lemma loaded_count:
  assumes "queue_inv q"
  shows "(let cSlots = sub32 (mPushIndex q) (mPopIndex q)
          in add32 cSlots (if cSlots < 0 then mIndexEnd q else 0)) = live_count q"
proof -
  note i = inv_indices [OF assms] and g = inv_geometry [OF assms]
  have d: "sub32 (mPushIndex q) (mPopIndex q) = mPushIndex q - mPopIndex q"
    unfolding sub32_def using i g by (intro int32_id) (simp_all add: INT_MIN_def INT_MAX_def)
  have a: "add32 (mPushIndex q - mPopIndex q) x = mPushIndex q - mPopIndex q + x"
    if "x = 0 \<or> x = mIndexEnd q \<and> mPushIndex q - mPopIndex q < 0" for x
    unfolding add32_def using i g that by (intro int32_id) (auto simp: INT_MIN_def INT_MAX_def)
  show ?thesis
    unfolding Let_def d using live_count_delta [OF assms] by (auto simp: a)
qed

lemma pop_offset:
  assumes "queue_inv q"
  shows "(nat (mPopIndex q mod mCapacity q) + j) mod nat (mCapacity q) = live_slot q j"
proof -
  note g = inv_geometry [OF assms]
  let ?c = "mCapacity q"
  have "int ((nat (mPopIndex q mod ?c) + j) mod nat ?c) = (mPopIndex q mod ?c + int j) mod ?c"
    using g by (simp add: zmod_int)
  also have "\<dots> = (mPopIndex q + int j) mod ?c" by (simp add: mod_simps)
  finally have "int ((nat (mPopIndex q mod ?c) + j) mod nat ?c) = int (live_slot q j)"
    using g by (simp add: live_slot_def)
  then show ?thesis by (simp only: of_nat_eq_iff)
qed

lemma ring_read_contents:
  assumes "queue_inv q" "n \<le> nat (live_count q)"
  shows "ring_read n (nat (mPopIndex q mod mCapacity q)) (mSlots q) = map Some (take n (contents q))"
proof (rule nth_equalityI)
  note c = inv_indices [OF assms(1)] and g = inv_geometry [OF assms(1)]
  from assms(1) have l: "length (mSlots q) = nat (mCapacity q)" by (simp add: queue_inv_def)
  have s: "nat (mPopIndex q mod mCapacity q) < length (mSlots q)"
    using g l by (simp add: nat_less_iff)
  have n: "n \<le> length (mSlots q)" using assms(2) c l by linarith
  show "length (ring_read n (nat (mPopIndex q mod mCapacity q)) (mSlots q))
      = length (map Some (take n (contents q)))"
    using length_ring_read [OF s n] assms(2) by simp
  fix j assume "j < length (ring_read n (nat (mPopIndex q mod mCapacity q)) (mSlots q))"
  then have j: "j < n" using length_ring_read [OF s n] by simp
  then have jl: "j < nat (live_count q)" using assms(2) by simp
  have "ring_read n (nat (mPopIndex q mod mCapacity q)) (mSlots q) ! j = mSlots q ! live_slot q j"
    using ring_read_nth [OF s n j] unfolding l pop_offset [OF assms(1)] .
  also have "\<dots> = Some (contents q ! j)" by (rule inv_live [OF assms(1) jl])
  also have "\<dots> = map Some (take n (contents q)) ! j" using j jl by simp
  finally show "ring_read n (nat (mPopIndex q mod mCapacity q)) (mSlots q) ! j
      = map Some (take n (contents q)) ! j" .
qed

lemma insert_end_fits:
  assumes "length (c_items c) + length ys \<le> c_capacity c"
  shows "insert_end ys c = c\<lparr>c_items := c_items c @ ys\<rparr>"
  using assms by (simp add: insert_end_def max_def)

lemma Pop_Multiple_inv:
  fixes aPopped :: "'a Container" and q :: "'a Queue"
  defines "n \<equiv> min (int (c_capacity aPopped - length (c_items aPopped))) (live_count q)"
  assumes inv: "queue_inv q"
    and spare: "int (c_capacity aPopped - length (c_items aPopped)) \<le> INT_MAX"
  shows "Pop_Multiple aPopped q
         = Returns (aPopped\<lparr>c_items := c_items aPopped @ take (nat n) (contents q)\<rparr>)
             (popped_many (nat n) q)"
proof -
  note i = inv_indices [OF inv] and g = inv_geometry [OF inv]
  let ?c = "mCapacity q" and ?S = "mSlots q"
  define s where "s = mPopIndex q mod mCapacity q"
  from inv have al: "Is_Allocated q" and ls: "length ?S = nat ?c" by (simp_all add: queue_inv_def)
  have n0: "0 \<le> n" and nc: "n \<le> ?c" and nl: "nat n \<le> nat (live_count q)"
    and nf: "nat n \<le> c_capacity aPopped - length (c_items aPopped)"
    using i by (simp_all add: n_def)
  have sz: "int_of_size_t (c_capacity aPopped - length (c_items aPopped))
      = int (c_capacity aPopped - length (c_items aPopped))"
    unfolding int_of_size_t_def using spare by (intro int32_id) (simp_all add: INT_MIN_def)
  have num: "min (int_of_size_t (c_capacity aPopped - length (c_items aPopped)))
      (let cSlots = sub32 (mPushIndex q) (mPopIndex q)
       in add32 cSlots (if cSlots < 0 then mIndexEnd q else 0)) = n"
    unfolding loaded_count [OF inv] sz n_def ..
  define body where "body = (\<lambda>cNumToPop.
      if cNumToPop = 0 then Returns aPopped q
      else
        (case rem32 (mPopIndex q) (mCapacity q) of
           None \<Rightarrow> Undefined_Behaviour
         | Some cPopIndex \<Rightarrow>
             let cDistanceBeyondEnd = sub32 (add32 cPopIndex cNumToPop) (mCapacity q);
                 popped =
                   (if cDistanceBeyondEnd \<le> 0
                    then cPopAndDestroy cPopIndex cNumToPop (aPopped, q)
                    else
                      let cInitialLength = sub32 cNumToPop cDistanceBeyondEnd
                      in case cPopAndDestroy cPopIndex cInitialLength (aPopped, q) of
                           None \<Rightarrow> None
                         | Some cq \<Rightarrow> cPopAndDestroy 0 cDistanceBeyondEnd cq)
             in case popped of
                  None \<Rightarrow> Undefined_Behaviour
                | Some (aPopped', q1) \<Rightarrow>
                    let cNewPopIndex = Increase_Index q1 (mPopIndex q) cNumToPop;
                        q2 = q1\<lparr>mPopIndex := cNewPopIndex\<rparr>
                    in Returns aPopped' (Decrease_Size cNumToPop q2)))"
  have "Pop_Multiple aPopped q = body (min (int_of_size_t (c_capacity aPopped - length (c_items aPopped)))
      (let cSlots = sub32 (mPushIndex q) (mPopIndex q)
       in add32 cSlots (if cSlots < 0 then mIndexEnd q else 0)))"
    by (simp add: Pop_Multiple_def body_def Let_def)
  then have em: "Pop_Multiple aPopped q = body n" unfolding num .
  have s0: "0 \<le> s" and s1: "s < ?c" using g by (simp_all add: s_def)
  show ?thesis
  proof (cases "n = 0")
    case True
    have "ring_clear 0 (nat s) ?S = ?S" by (simp add: ring_clear_def)
    moreover have "Increase_Index q (mPopIndex q) 0 = mPopIndex q"
      using Increase_Index_mod [OF inv i(3) i(4), of 0] i g
      by (simp add: INT_MAX_def)
    ultimately have "popped_many 0 q = q" by (simp add: popped_many_def s_def)
    then show ?thesis using True by (simp add: em body_def)
  next
    case False
    then have np: "0 < n" using n0 by simp
    have fit: "length (c_items aPopped) + nat n \<le> c_capacity aPopped" using nf np by linarith
    have r: "rem32 (mPopIndex q) ?c = Some s" using i g by (simp add: rem32_nonneg s_def)
    have a: "add32 s n = s + n"
      unfolding add32_def using s0 s1 n0 nc g by (intro int32_id) (simp_all add: INT_MIN_def INT_MAX_def)
    have d: "sub32 (s + n) ?c = s + n - ?c"
      unfolding sub32_def using s0 s1 n0 nc g by (intro int32_id) (simp_all add: INT_MIN_def INT_MAX_def)
    note rc = ring_read_contents [OF inv nl, folded s_def]
    have popped: "(if s + n - ?c \<le> 0 then cPopAndDestroy s n (aPopped, q)
          else let cInitialLength = sub32 n (s + n - ?c)
               in case cPopAndDestroy s cInitialLength (aPopped, q) of
                    None \<Rightarrow> None
                  | Some cq \<Rightarrow> cPopAndDestroy 0 (s + n - ?c) cq)
        = Some (aPopped\<lparr>c_items := c_items aPopped @ take (nat n) (contents q)\<rparr>,
                q\<lparr>mSlots := ring_clear (nat n) (nat s) ?S\<rparr>)"
    proof (cases "s + n - ?c \<le> 0")
      case True
      then have b: "nat s + nat n \<le> length ?S" using ls s0 n0 by linarith
      have mk: "min (nat n) (length ?S - nat s) = nat n" using True ls s0 n0 by linarith
      have rr: "take (nat n) (drop (nat s) ?S) = map Some (take (nat n) (contents q))"
        using rc by (simp add: ring_read_def Let_def mk)
      have nn: "None \<notin> set (take (nat n) (drop (nat s) ?S))" unfolding rr by auto
      have cl: "ring_clear (nat n) (nat s) ?S
          = take (nat s) ?S @ replicate (nat n) None @ drop (nat s + nat n) ?S"
        by (simp add: ring_clear_def Let_def mk)
      have th: "map the (map Some (take (nat n) (contents q))) = take (nat n) (contents q)"
        by (simp add: comp_def)
      have "length (c_items aPopped) + length (take (nat n) (contents q)) \<le> c_capacity aPopped"
        using fit nl by simp
      note ie = insert_end_fits [OF this]
      show ?thesis
        using True pop_ok [OF al n0 s0 b nn, of aPopped] by (simp add: rr th ie cl)
    next
      case False
      let ?k = "?c - s" and ?d = "s + n - ?c"
      have il: "sub32 n ?d = ?k"
        unfolding sub32_def using s0 s1 n0 nc g
        by (simp add: int32_id INT_MIN_def INT_MAX_def)
      have kp: "0 \<le> ?k" and kn: "?k < n" and dp: "0 \<le> ?d" using s1 False by simp_all
      have mk: "min (nat n) (length ?S - nat s) = nat ?k" using False ls s0 s1 n0 by linarith
      have e3: "nat n - nat ?k = nat ?d" using s0 s1 n0 False by linarith
      have rr: "take (nat ?k) (drop (nat s) ?S) @ take (nat ?d) ?S
          = map Some (take (nat n) (contents q))"
        using rc by (simp add: ring_read_def Let_def mk e3)
      have n1: "None \<notin> set (take (nat ?k) (drop (nat s) ?S))"
      proof
        assume "None \<in> set (take (nat ?k) (drop (nat s) ?S))"
        then have "None \<in> set (take (nat ?k) (drop (nat s) ?S) @ take (nat ?d) ?S)" by simp
        then show False unfolding rr by auto
      qed
      have n2: "None \<notin> set (take (nat ?d) ?S)"
      proof
        assume "None \<in> set (take (nat ?d) ?S)"
        then have "None \<in> set (take (nat ?k) (drop (nat s) ?S) @ take (nat ?d) ?S)" by simp
        then show False unfolding rr by auto
      qed
      have b1: "nat s + nat ?k \<le> length ?S" using ls s0 s1 by linarith
      have dr: "drop (nat s + nat ?k) ?S = []" using ls s0 s1 by simp
      let ?c1 = "insert_end (map the (take (nat ?k) (drop (nat s) ?S))) aPopped"
      let ?q1 = "q\<lparr>mSlots := take (nat s) ?S @ replicate (nat ?k) None\<rparr>"
      have p1: "cPopAndDestroy s ?k (aPopped, q) = Some (?c1, ?q1)"
        using pop_ok [OF al kp s0 b1 n1, of aPopped] by (simp add: dr)
      have ds: "nat ?d \<le> nat s" using nc s0 by linarith
      have t2: "take (nat ?d) (drop (nat 0) (mSlots ?q1)) = take (nat ?d) ?S"
        using ds ls s0 s1 by simp
      have a1: "Is_Allocated ?q1" using al by (simp add: Is_Allocated_def)
      have b2: "nat 0 + nat ?d \<le> length (mSlots ?q1)" using ls s0 s1 nc by simp
      have n2': "None \<notin> set (take (nat ?d) (drop (nat 0) (mSlots ?q1)))" unfolding t2 by (rule n2)
      have z: "(0::int) \<le> 0" by simp
      have p2: "cPopAndDestroy 0 ?d (?c1, ?q1)
          = Some (insert_end (map the (take (nat ?d) ?S)) ?c1,
                  ?q1\<lparr>mSlots := take (nat 0) (mSlots ?q1) @ replicate (nat ?d) None
                         @ drop (nat 0 + nat ?d) (mSlots ?q1)\<rparr>)"
        using pop_ok [OF a1 dp z b2 n2', of ?c1] unfolding t2 .
      have l1: "length (take (nat ?k) (drop (nat s) ?S)) = nat ?k" using ls s0 s1 by simp
      have l2: "length (take (nat ?d) ?S) = nat ?d" using ls ds s0 s1 by simp
      have f1: "length (c_items aPopped) + length (map the (take (nat ?k) (drop (nat s) ?S)))
          \<le> c_capacity aPopped"
        using fit kn l1 by simp
      have c1: "?c1 = aPopped\<lparr>c_items := c_items aPopped @ map the (take (nat ?k) (drop (nat s) ?S))\<rparr>"
        by (rule insert_end_fits [OF f1])
      have kd: "nat ?k + nat ?d = nat n" using s0 s1 n0 False by linarith
      have f2: "length (c_items ?c1) + length (map the (take (nat ?d) ?S)) \<le> c_capacity ?c1"
      proof -
        have "length (c_items ?c1) = length (c_items aPopped) + nat ?k" unfolding c1 using l1 by simp
        moreover have "c_capacity ?c1 = c_capacity aPopped" unfolding c1 by simp
        moreover have "length (map the (take (nat ?d) ?S)) = nat ?d" using l2 by simp
        ultimately show ?thesis using fit kd by linarith
      qed
      have c2: "insert_end (map the (take (nat ?d) ?S)) ?c1
          = aPopped\<lparr>c_items := c_items aPopped @ take (nat n) (contents q)\<rparr>"
      proof -
        have "insert_end (map the (take (nat ?d) ?S)) ?c1
            = ?c1\<lparr>c_items := c_items ?c1 @ map the (take (nat ?d) ?S)\<rparr>"
          by (rule insert_end_fits [OF f2])
        also have "\<dots> = aPopped\<lparr>c_items := c_items aPopped
            @ map the (take (nat ?k) (drop (nat s) ?S) @ take (nat ?d) ?S)\<rparr>"
          unfolding c1 by simp
        also have "map the (take (nat ?k) (drop (nat s) ?S) @ take (nat ?d) ?S)
            = take (nat n) (contents q)"
          unfolding rr by (simp add: comp_def)
        finally show ?thesis .
      qed
      have cl: "ring_clear (nat n) (nat s) ?S
          = replicate (nat ?d) None @ drop (nat ?d) (take (nat s) ?S @ replicate (nat ?k) None)"
        unfolding ring_clear_def Let_def mk e3 dr by (simp only: append_Nil2)
      show ?thesis
        using False by (simp add: il p1 p2 c2 cl Let_def)
    qed
    have pA: "cPopAndDestroy s n (aPopped, q)
        = Some (aPopped\<lparr>c_items := c_items aPopped @ take (nat n) (contents q)\<rparr>,
                q\<lparr>mSlots := ring_clear (nat n) (nat s) ?S\<rparr>)" if "s + n \<le> ?c"
      using popped that by simp
    have pB: "(case cPopAndDestroy s (sub32 n (s + n - ?c)) (aPopped, q) of
            None \<Rightarrow> None
          | Some cq \<Rightarrow> cPopAndDestroy 0 (s + n - ?c) cq)
        = Some (aPopped\<lparr>c_items := c_items aPopped @ take (nat n) (contents q)\<rparr>,
                q\<lparr>mSlots := ring_clear (nat n) (nat s) ?S\<rparr>)" if "\<not> s + n \<le> ?c"
      using popped that by (simp add: Let_def)
    have ii: "Increase_Index (q\<lparr>mSlots := ms\<rparr>) (mPopIndex q) n = Increase_Index q (mPopIndex q) n" for ms
      by (simp add: Increase_Index_def Let_def cong: if_cong)
    have "mSize q - n \<le> INT_MAX" "INT_MIN \<le> mSize q - n"
      using inv_mSize [OF inv] i g n0 by (auto simp: INT_MIN_def INT_MAX_def n_def)
    then have az: "sub32 (mSize q) n = mSize q - n"
      unfolding sub32_def by (intro int32_id)
    have pm: "popped_many (nat n) q
        = q\<lparr>mSlots := ring_clear (nat n) (nat s) ?S,
            mPopIndex := Increase_Index q (mPopIndex q) n, mSize := mSize q - n\<rparr>"
      using n0 by (simp add: popped_many_def s_def)
    show ?thesis
      unfolding em body_def
      using False by (simp add: r a d pA pB ii az pm Decrease_Size_def Let_def)
  qed
qed

lemma pop_offset_inverse:
  assumes "queue_inv q" "j < nat (mCapacity q)"
  shows "(live_slot q j + nat (mCapacity q) - nat (mPopIndex q mod mCapacity q)) mod nat (mCapacity q) = j"
proof -
  note g = inv_geometry [OF assms(1)]
  let ?c = "mCapacity q"
  define s where "s = mPopIndex q mod ?c"
  define k where "k = (mPopIndex q + int j) mod ?c"
  have s: "0 \<le> s" "s < ?c" and k: "0 \<le> k" "k < ?c" using g by (simp_all add: s_def k_def)
  have "int ((nat k + nat ?c - nat s) mod nat ?c) = (k + ?c - s) mod ?c"
    using s k g by (simp add: zmod_int of_nat_diff)
  also have "\<dots> = (k - s) mod ?c"
  proof -
    have "k + ?c - s = k - s + ?c" by simp
    then show ?thesis by (simp only: mod_add_self2)
  qed
  also have "\<dots> = (mPopIndex q + int j - mPopIndex q) mod ?c"
    unfolding s_def k_def by (rule mod_diff_eq)
  also have "\<dots> = int j" using assms(2) by simp
  finally have "(nat k + nat ?c - nat s) mod nat ?c = j" by (simp only: of_nat_eq_iff)
  then show ?thesis by (simp add: live_slot_def k_def s_def)
qed

lemma popped_many_slots_nth:
  assumes "queue_inv q" "m \<le> nat (live_count q)" "j < nat (mCapacity q)"
  shows "mSlots (popped_many m q) ! live_slot q j = (if j < m then None else mSlots q ! live_slot q j)"
proof -
  note c = inv_indices [OF assms(1)] and g = inv_geometry [OF assms(1)]
  from assms(1) have l: "length (mSlots q) = nat (mCapacity q)" by (simp add: queue_inv_def)
  have s: "nat (mPopIndex q mod mCapacity q) < length (mSlots q)"
    using g l by (simp add: nat_less_iff)
  have n: "m \<le> length (mSlots q)" using assms(2) c l by linarith
  have k: "live_slot q j < length (mSlots q)" using live_slot_less [OF g(1)] l by simp
  have "mSlots (popped_many m q) ! live_slot q j
      = ring_clear m (nat (mPopIndex q mod mCapacity q)) (mSlots q) ! live_slot q j"
    by (simp add: popped_many_def)
  also have "\<dots> = (if (live_slot q j + nat (mCapacity q) - nat (mPopIndex q mod mCapacity q))
                          mod nat (mCapacity q) < m
                     then None else mSlots q ! live_slot q j)"
    using ring_clear_nth [OF s n k] unfolding l .
  finally show ?thesis unfolding pop_offset_inverse [OF assms(1,3)] .
qed

lemma popped_many_size:
  assumes "queue_inv q" "m \<le> nat (live_count q)"
  shows "size_q (popped_many m q) = size_q q - int m"
proof -
  note c = inv_indices [OF assms(1)] and g = inv_geometry [OF assms(1)]
  from assms(1) have s: "size_q q = live_count q" by (simp add: queue_inv_def)
  have "size_q (popped_many m q) = (mSize q mod 2147483648 - int m) mod 2147483648"
    by (simp add: size_q_mod popped_many_def mod_simps)
  also have "\<dots> = (live_count q - int m) mod 2147483648"
    using s by (simp add: size_q_mod)
  also have "\<dots> = live_count q - int m"
    using c g assms(2) by (intro mod_pos_pos_trivial) (simp_all add: INT_MAX_def)
  finally show ?thesis using s by simp
qed

lemma popped_many_index:
  assumes "queue_inv q" "m \<le> nat (live_count q)" "mPopIndex q + int m \<le> INT_MAX"
  shows "mPopIndex (popped_many m q) = (mPopIndex q + int m) mod mIndexEnd q"
proof -
  note c = inv_indices [OF assms(1)]
  have "int m \<le> mCapacity q" using assms(2) c by linarith
  then show ?thesis
    using Increase_Index_mod [OF assms(1) c(3) c(4), of "int m"] assms(3)
    by (simp add: popped_many_def)
qed

lemma popped_many_count:
  assumes "queue_inv q" "m \<le> nat (live_count q)" "mPopIndex q + int m \<le> INT_MAX"
  shows "live_count (popped_many m q) = live_count q - int m"
proof -
  note i = inv_indices [OF assms(1)] and g = inv_geometry [OF assms(1)]
  let ?e = "mIndexEnd q"
  have "live_count (popped_many m q) = (mPushIndex q - (mPopIndex q + int m) mod ?e) mod ?e"
    using popped_many_index [OF assms] by (simp add: live_count_def popped_many_def)
  also have "\<dots> = ((mPushIndex q - mPopIndex q) mod ?e - int m) mod ?e"
    by (simp add: mod_simps algebra_simps)
  also have "\<dots> = live_count q - int m"
    unfolding live_count_def [symmetric] using i g assms(2) by (intro mod_pos_pos_trivial) linarith+
  finally show ?thesis .
qed

lemma popped_many_live_slot:
  assumes "queue_inv q" "m \<le> nat (live_count q)" "mPopIndex q + int m \<le> INT_MAX"
  shows "live_slot (popped_many m q) i = live_slot q (m + i)"
proof -
  note g = inv_geometry [OF assms(1)]
  let ?c = "mCapacity q" and ?e = "mIndexEnd q"
  have "((mPopIndex q + int m) mod ?e + int i) mod ?c
      = ((mPopIndex q + int m) mod ?e mod ?c + int i) mod ?c"
    by (simp add: mod_simps)
  also have "\<dots> = ((mPopIndex q + int m) mod ?c + int i) mod ?c"
    using g(4) by (simp add: mod_mod_cancel)
  also have "\<dots> = (mPopIndex q + int (m + i)) mod ?c"
    by (simp add: mod_simps algebra_simps)
  finally show ?thesis
    using popped_many_index [OF assms] by (simp add: live_slot_def popped_many_def)
qed

lemma popped_many_contents:
  assumes "queue_inv q" "m \<le> nat (live_count q)" "mPopIndex q + int m \<le> INT_MAX"
  shows "contents (popped_many m q) = drop m (contents q)"
proof (rule nth_equalityI)
  note c = inv_indices [OF assms(1)]
  have n: "nat (live_count (popped_many m q)) = nat (live_count q) - m"
    using popped_many_count [OF assms] c by (simp add: nat_diff_distrib)
  show "length (contents (popped_many m q)) = length (drop m (contents q))" using n by simp
  fix i assume "i < length (contents (popped_many m q))"
  then have i: "m + i < nat (live_count q)" "i < nat (live_count (popped_many m q))"
    using n by simp_all
  then have ic: "m + i < nat (mCapacity q)" using c by linarith
  have "contents (popped_many m q) ! i = the (mSlots (popped_many m q) ! live_slot q (m + i))"
    using i(2) by (simp add: contents_nth popped_many_live_slot [OF assms])
  also have "\<dots> = contents q ! (m + i)"
    unfolding popped_many_slots_nth [OF assms(1,2) ic] using i(1) by (simp add: contents_nth)
  also have "\<dots> = drop m (contents q) ! i" using assms(2) by simp
  finally show "contents (popped_many m q) ! i = drop m (contents q) ! i" .
qed

lemma popped_many_inv:
  assumes "queue_inv q" "m \<le> nat (live_count q)" "mPopIndex q + int m \<le> INT_MAX"
  shows "queue_inv (popped_many m q)"
proof -
  note c = inv_indices [OF assms(1)] and g = inv_geometry [OF assms(1)]
  from assms(1) have l: "length (mSlots q) = nat (mCapacity q)" by (simp add: queue_inv_def)
  have n: "live_count (popped_many m q) = live_count q - int m"
    by (rule popped_many_count [OF assms])
  have e: "0 < mIndexEnd q" using c by linarith
  have live: "list_all (\<lambda>i. mSlots (popped_many m q) ! live_slot (popped_many m q) i \<noteq> None)
               [0..<nat (live_count (popped_many m q))]"
  proof -
    have "mSlots (popped_many m q) ! live_slot (popped_many m q) i \<noteq> None"
      if "i < nat (live_count q - int m)" for i
    proof -
      from that have s: "m + i < nat (live_count q)" by linarith
      then have ic: "m + i < nat (mCapacity q)" using c by linarith
      show ?thesis
        unfolding popped_many_live_slot [OF assms] popped_many_slots_nth [OF assms(1,2) ic]
        using inv_live [OF assms(1) s] by simp
    qed
    then show ?thesis by (simp add: n list_all_iff)
  qed
  have sz: "size_q (popped_many m q) = live_count q - int m"
    using popped_many_size [OF assms(1,2)] assms(1) by (simp add: queue_inv_def)
  have ms: "INT_MIN \<le> mSize (popped_many m q) \<and> mSize (popped_many m q) \<le> INT_MAX"
    using inv_mSize [OF assms(1)] c g assms(2) by (auto simp: popped_many_def INT_MIN_def INT_MAX_def)
  have ln: "length (mSlots (popped_many m q)) = nat (mCapacity q)"
  proof -
    have a: "nat (mPopIndex q mod mCapacity q) < length (mSlots q)"
      using g l by (simp add: nat_less_iff)
    have b: "m \<le> length (mSlots q)" using assms(2) c l by linarith
    show ?thesis using length_ring_clear [OF a b] l by (simp add: popped_many_def)
  qed
  have rest: "Is_Allocated (popped_many m q) \<and> mCapacity (popped_many m q) = mCapacity q
      \<and> mIndexEnd (popped_many m q) = mIndexEnd q \<and> mPushIndex (popped_many m q) = mPushIndex q"
    using assms(1) by (simp add: queue_inv_def popped_many_def Is_Allocated_def)
  have pi: "0 \<le> mPopIndex (popped_many m q) \<and> mPopIndex (popped_many m q) < mIndexEnd q"
    using e popped_many_index [OF assms] by simp
  show ?thesis
    unfolding queue_inv_def
    using rest pi ms sz live n ln assms c g
    by (simp add: queue_inv_def)
qed

lemma Emplace_Multiple_nothing:
  assumes "min (int_of_size_t (length aSpan))
      (let cMaxPushIndex = add32 (mPopIndex q) (mCapacity q);
           cSlots = sub32 cMaxPushIndex (mPushIndex q)
       in sub32 cSlots (if cSlots \<ge> mIndexEnd q then mIndexEnd q else 0)) = 0"
  shows "Emplace_Multiple aSpan q = Returns aSpan q"
  using assms by (simp add: Emplace_Multiple_def Let_def)

lemma Pop_Multiple_nothing:
  assumes "min (int_of_size_t (c_capacity aPopped - length (c_items aPopped)))
      (let cSlots = sub32 (mPushIndex q) (mPopIndex q)
       in add32 cSlots (if cSlots < 0 then mIndexEnd q else 0)) = 0"
  shows "Pop_Multiple aPopped q = Returns aPopped q"
  using assms by (simp add: Pop_Multiple_def Let_def)

text \<open>
  Claim C3, as stated, fails in its general part: the length of the span is cast to
  \<open>int\<close>, so of a span of \<open>2^32\<close> elements nothing is pushed, although three slots are
  free, and the whole span is returned.
\<close>

theorem Emplace_Multiple_huge_span_counterexample:
  "Emplace_Multiple (replicate 4294967296 0) (ring3 0 0 0 [None, None, None])
     = Returns (replicate 4294967296 0) (ring3 0 0 0 [None, None, None])
   \<and> length (replicate 4294967296 (0::int)) = 4294967296
   \<and> queue_inv (ring3 0 0 0 [None, None, None])
   \<and> mCapacity (ring3 0 0 0 [None, None, None]) - live_count (ring3 0 0 0 [None, None, None]) = 3"
proof -
  have "Emplace_Multiple (replicate 4294967296 0) (ring3 0 0 0 [None, None, None])
     = Returns (replicate 4294967296 0) (ring3 0 0 0 [None, None, None])"
    by (rule Emplace_Multiple_nothing)
      (simp add: int_of_size_t_def int32_def add32_def sub32_def ring3_def)
  moreover have "queue_inv (ring3 0 0 0 [None, None, None])"
    by (simp add: concrete_defs)
  moreover have "mCapacity (ring3 0 0 0 [None, None, None])
      - live_count (ring3 0 0 0 [None, None, None]) = 3"
    by (simp add: live_count_def ring3_def)
  ultimately show ?thesis by simp
qed

text \<open>
  Claim C3, amended. On a queue that satisfies the invariants, for a span of at most
  \<open>INT_MAX\<close> elements, and where neither \<open>mPopIndex + mCapacity\<close> nor the new push index
  exceeds \<open>INT_MAX\<close>, \<open>Emplace_Multiple\<close> pushes the first \<open>min(span length, free slots)\<close>
  elements behind the queued ones, in order, adds their number to \<open>size()\<close> and returns
  the rest of the span. The scenario of the specification: allocated with capacity 3, the
  span \<open>[1,2,3,4,5]\<close> leaves \<open>[4,5]\<close> and \<open>size() = 3\<close>, and \<open>Pop_Multiple\<close> into an
  empty container of capacity \<open>k \<ge> 3\<close> then yields \<open>[1,2,3]\<close>.
\<close>

theorem Emplace_Multiple_pushes_prefix:
  assumes "queue_inv q" and "int (length aSpan) \<le> INT_MAX"
    and "mPopIndex q + mCapacity q \<le> INT_MAX"
    and "mPushIndex q + int (min (length aSpan) (nat (mCapacity q) - length (contents q))) \<le> INT_MAX"
  shows "(let n = min (length aSpan) (nat (mCapacity q) - length (contents q))
          in \<exists>q'. Emplace_Multiple aSpan q = Returns (drop n aSpan) q'
               \<and> queue_inv q' \<and> contents q' = contents q @ take n aSpan
               \<and> size_q q' = size_q q + int n)
       \<and> Allocate fixed_allocator 4 4 3 Queue_default = Returns () (ring3 0 0 0 [None, None, None])
       \<and> Emplace_Multiple [1, 2, 3, 4, 5] (ring3 0 0 0 [None, None, None])
           = Returns [4, 5] (ring3 3 0 3 [Some 1, Some 2, Some 3])
       \<and> size_q (ring3 3 0 3 [Some 1, Some 2, Some 3]) = 3
       \<and> (\<forall>k. 3 \<le> k \<and> int k \<le> INT_MAX \<longrightarrow>
             Pop_Multiple \<lparr>c_items = [], c_capacity = k\<rparr> (ring3 3 0 3 [Some 1, Some 2, Some 3])
               = Returns \<lparr>c_items = [1, 2, 3], c_capacity = k\<rparr> (ring3 3 3 0 [None, None, None]))"
proof -
  note c = inv_indices [OF assms(1)]
  define n where "n = min (length aSpan) (nat (mCapacity q) - length (contents q))"
  define m where "m = min (int (length aSpan)) (mCapacity q - live_count q)"
  have mn: "m = int n" "nat m = n" using c by (simp_all add: m_def n_def)
  have pu: "mPushIndex q + m \<le> INT_MAX" using assms(4) unfolding mn n_def .
  have em: "Emplace_Multiple aSpan q = Returns (drop n aSpan) (pushed_many (take n aSpan) q)"
    using Emplace_Multiple_inv [OF assms(1,2,3) pu [unfolded m_def]] mn by (simp add: m_def)
  have fits: "int (length (take n aSpan)) \<le> mCapacity q - live_count q"
    using c by (simp add: n_def)
  have ln: "length (take n aSpan) = n" by (simp add: n_def)
  from assms(1) have s: "size_q q = live_count q" by (simp add: queue_inv_def)
  have sz: "size_q (pushed_many (take n aSpan) q) = size_q q + int n"
    using pushed_many_inv [OF assms(1) fits] pushed_many_count [OF assms(1) fits] s ln
    by (simp add: queue_inv_def)
  have general: "let n = min (length aSpan) (nat (mCapacity q) - length (contents q))
          in \<exists>q'. Emplace_Multiple aSpan q = Returns (drop n aSpan) q'
               \<and> queue_inv q' \<and> contents q' = contents q @ take n aSpan
               \<and> size_q q' = size_q q + int n"
    unfolding Let_def n_def [symmetric]
    using em pushed_many_inv [OF assms(1) fits] pushed_many_contents [OF assms(1) fits] sz by blast
  have al: "Allocate fixed_allocator 4 4 3 Queue_default = Returns () (ring3 0 0 0 [None, None, None])"
    by (simp add: Allocate_def fixed_allocator_def Queue_default_def Is_Allocated_def nullptr_def
        Let_def INT_MAX_def mul32_def int32_def ring3_def eval_nat_numeral)
  have e: "Emplace_Multiple [1, 2, 3, 4, 5] (ring3 0 0 0 [None, None, None])
           = Returns [4, 5] (ring3 3 0 3 [Some 1, Some 2, Some 3])"
    by code_simp
  have z: "size_q (ring3 3 0 3 [Some 1, Some 2, Some 3]) = 3"
    by (simp add: size_q_def sSizeMask_def int32_def ring3_def)
  have p: "Pop_Multiple \<lparr>c_items = [], c_capacity = k\<rparr> (ring3 3 0 3 [Some 1, Some 2, Some 3])
               = Returns \<lparr>c_items = [1, 2, 3], c_capacity = k\<rparr> (ring3 3 3 0 [None, None, None])"
    if "3 \<le> k" "int k \<le> INT_MAX" for k
  proof -
    have i: "queue_inv (ring3 3 0 3 [Some 1, Some 2, Some 3])" by (simp add: concrete_defs)
    have k: "int (c_capacity \<lparr>c_items = [], c_capacity = k\<rparr> - length (c_items \<lparr>c_items = ([]::int list), c_capacity = k\<rparr>)) \<le> INT_MAX"
      using that by simp
    have mk: "min (int k) 3 = 3" using that by simp
    show ?thesis
      using Pop_Multiple_inv [OF i k]
      by (simp add: mk ring3_def live_count_def contents_def live_slot_def popped_many_def
          ring_clear_def Increase_Index_def add32_def sub32_def int32_def eval_nat_numeral)
  qed
  show ?thesis using general al e z p by blast
qed

theorem Emplace_Multiple_pushes_prefix_witness:
  "queue_inv (ring3 2147483640 2147483639 1 [None, None, Some 9])
   \<and> (\<exists>q'. Emplace_Multiple [1, 2, 3, 4, 5] (ring3 2147483640 2147483639 1 [None, None, Some 9])
              = Returns [3, 4, 5] q'
            \<and> contents q' = [9, 1, 2] \<and> size_q q' = 3 \<and> queue_inv q')"
proof -
  have i: "queue_inv (ring3 2147483640 2147483639 1 [None, None, Some 9])"
    by (simp add: concrete_defs)
  have c: "contents (ring3 2147483640 2147483639 1 [None, None, Some 9]) = [9]"
    by (simp add: contents_def live_count_def live_slot_def ring3_def)
  have l: "int (length [1, 2, 3, 4, 5 :: int]) \<le> INT_MAX" by (simp add: INT_MAX_def)
  have p: "mPopIndex (ring3 2147483640 2147483639 1 [None, None, Some 9])
      + mCapacity (ring3 2147483640 2147483639 1 [None, None, Some 9]) \<le> INT_MAX"
    by (simp add: ring3_def INT_MAX_def)
  have n: "min (length [1, 2, 3, 4, 5 :: int])
      (nat (mCapacity (ring3 2147483640 2147483639 1 [None, None, Some 9])) - length [9::int]) = 2"
    by (simp add: ring3_def)
  have u: "mPushIndex (ring3 2147483640 2147483639 1 [None, None, Some 9])
      + int (min (length [1, 2, 3, 4, 5 :: int])
          (nat (mCapacity (ring3 2147483640 2147483639 1 [None, None, Some 9]))
            - length (contents (ring3 2147483640 2147483639 1 [None, None, Some 9])))) \<le> INT_MAX"
    unfolding c n by (simp add: ring3_def INT_MAX_def)
  have s: "size_q (ring3 2147483640 2147483639 1 [None, None, Some 9]) = 1"
    by (simp add: size_q_def sSizeMask_def int32_def ring3_def)
  have d: "drop 2 [1, 2, 3, 4, 5 :: int] = [3, 4, 5]" "take 2 [1, 2, 3, 4, 5 :: int] = [1, 2]"
    by (simp_all add: eval_nat_numeral)
  note t = Emplace_Multiple_pushes_prefix [OF i l p u, unfolded Let_def n c s d]
  show ?thesis using i t by auto
qed

text \<open>
  Claim C10, as stated, fails: the spare capacity of the container is cast to \<open>int\<close>,
  so with a spare capacity of \<open>2^32\<close> nothing is popped from a queue that holds one element.
\<close>

theorem Pop_Multiple_huge_capacity_counterexample:
  "Pop_Multiple \<lparr>c_items = [], c_capacity = 4294967296\<rparr> (ring3 1 0 1 [Some 10, None, None])
     = Returns \<lparr>c_items = [], c_capacity = 4294967296\<rparr> (ring3 1 0 1 [Some 10, None, None])
   \<and> queue_inv (ring3 1 0 1 [Some 10, None, None])
   \<and> contents (ring3 1 0 1 [Some 10, None, None]) = [10]"
proof -
  have "Pop_Multiple \<lparr>c_items = [], c_capacity = 4294967296\<rparr> (ring3 1 0 1 [Some 10, None, None])
     = Returns \<lparr>c_items = [], c_capacity = 4294967296\<rparr> (ring3 1 0 1 [Some 10, None, None])"
    by (rule Pop_Multiple_nothing)
      (simp add: int_of_size_t_def int32_def add32_def sub32_def ring3_def)
  moreover have "queue_inv (ring3 1 0 1 [Some 10, None, None])"
    by (simp add: concrete_defs)
  moreover have "contents (ring3 1 0 1 [Some 10, None, None]) = [10]"
    by (simp add: contents_def live_count_def live_slot_def ring3_def)
  ultimately show ?thesis by blast
qed

text \<open>
  Claim C10, amended. On a queue that satisfies the invariants and a container whose spare
  capacity \<open>capacity() - size()\<close> is at most \<open>INT_MAX\<close>, \<open>Pop_Multiple\<close> appends the first
  \<open>n = min(spare capacity, live elements)\<close> queued elements to the container, in order, and
  takes \<open>n\<close> from \<open>size()\<close>; where \<open>mPopIndex + n\<close> does not exceed \<open>INT_MAX\<close> the queue
  then holds the remaining elements. With no spare capacity the container and the queue
  are returned unchanged, and the capacity of the container never changes.
\<close>

theorem Pop_Multiple_pops_min:
  assumes "queue_inv q"
    and "int (c_capacity aPopped - length (c_items aPopped)) \<le> INT_MAX"
  shows "(let n = min (c_capacity aPopped - length (c_items aPopped)) (length (contents q))
          in \<exists>q'. Pop_Multiple aPopped q
                 = Returns (aPopped\<lparr>c_items := c_items aPopped @ take n (contents q)\<rparr>) q'
               \<and> size_q q' = size_q q - int n
               \<and> mPushIndex q' = mPushIndex q
               \<and> (mPopIndex q + int n \<le> INT_MAX \<longrightarrow>
                    queue_inv q' \<and> contents q' = drop n (contents q)))
       \<and> (c_capacity aPopped = length (c_items aPopped) \<longrightarrow> Pop_Multiple aPopped q = Returns aPopped q)
       \<and> (\<forall>aPopped' q'. Pop_Multiple aPopped q = Returns aPopped' q' \<longrightarrow>
             c_capacity aPopped' = c_capacity aPopped)"
proof -
  note c = inv_indices [OF assms(1)]
  define n where "n = min (c_capacity aPopped - length (c_items aPopped)) (length (contents q))"
  define m where "m = min (int (c_capacity aPopped - length (c_items aPopped))) (live_count q)"
  have mn: "m = int n" "nat m = n" using c by (simp_all add: m_def n_def)
  have nl: "n \<le> nat (live_count q)" by (simp add: n_def)
  have pm: "Pop_Multiple aPopped q
      = Returns (aPopped\<lparr>c_items := c_items aPopped @ take n (contents q)\<rparr>) (popped_many n q)"
    using Pop_Multiple_inv [OF assms] mn by (simp add: m_def)
  have a: "size_q (popped_many n q) = size_q q - int n" by (rule popped_many_size [OF assms(1) nl])
  have b: "mPushIndex (popped_many n q) = mPushIndex q" by (simp add: popped_many_def)
  have d: "queue_inv (popped_many n q) \<and> contents (popped_many n q) = drop n (contents q)"
    if "mPopIndex q + int n \<le> INT_MAX"
    using popped_many_inv [OF assms(1) nl that] popped_many_contents [OF assms(1) nl that] by simp
  have first: "let n = min (c_capacity aPopped - length (c_items aPopped)) (length (contents q))
          in \<exists>q'. Pop_Multiple aPopped q
                 = Returns (aPopped\<lparr>c_items := c_items aPopped @ take n (contents q)\<rparr>) q'
               \<and> size_q q' = size_q q - int n
               \<and> mPushIndex q' = mPushIndex q
               \<and> (mPopIndex q + int n \<le> INT_MAX \<longrightarrow>
                    queue_inv q' \<and> contents q' = drop n (contents q))"
    unfolding Let_def n_def [symmetric] using pm a b d by blast
  have second: "Pop_Multiple aPopped q = Returns aPopped q"
    if "c_capacity aPopped = length (c_items aPopped)"
  proof -
    have z: "n = 0" using that by (simp add: n_def)
    have "ring_clear 0 (nat (mPopIndex q mod mCapacity q)) (mSlots q) = mSlots q"
      by (simp add: ring_clear_def)
    moreover have "Increase_Index q (mPopIndex q) 0 = mPopIndex q"
      using Increase_Index_mod [OF assms(1) c(3) c(4), of 0] c inv_geometry [OF assms(1)]
      by (simp add: INT_MAX_def)
    ultimately have "popped_many 0 q = q" by (simp add: popped_many_def)
    then show ?thesis using pm z by simp
  qed
  have third: "c_capacity aPopped' = c_capacity aPopped"
    if "Pop_Multiple aPopped q = Returns aPopped' q'" for aPopped' q'
    using that pm by auto
  show ?thesis using first second third by blast
qed

theorem Pop_Multiple_pops_min_witness:
  "queue_inv (ring3 1 2147483644 3 [Some 3, Some 1, Some 2])
   \<and> (\<exists>q'. Pop_Multiple \<lparr>c_items = [7], c_capacity = 3\<rparr> (ring3 1 2147483644 3 [Some 3, Some 1, Some 2])
              = Returns \<lparr>c_items = [7, 1, 2], c_capacity = 3\<rparr> q'
            \<and> size_q q' = 1 \<and> contents q' = [3] \<and> queue_inv q')
   \<and> Pop_Multiple \<lparr>c_items = [7, 8], c_capacity = 2\<rparr> (ring3 1 2147483644 3 [Some 3, Some 1, Some 2])
       = Returns \<lparr>c_items = [7, 8], c_capacity = 2\<rparr> (ring3 1 2147483644 3 [Some 3, Some 1, Some 2])"
proof -
  have i: "queue_inv (ring3 1 2147483644 3 [Some 3, Some 1, Some 2])"
    by (simp add: concrete_defs)
  have c: "contents (ring3 1 2147483644 3 [Some 3, Some 1, Some 2]) = [1, 2, 3]"
    by (simp add: contents_def live_count_def live_slot_def ring3_def eval_nat_numeral)
  have s: "size_q (ring3 1 2147483644 3 [Some 3, Some 1, Some 2]) = 3"
    by (simp add: size_q_def sSizeMask_def int32_def ring3_def)
  have k1: "int (c_capacity \<lparr>c_items = [7::int], c_capacity = 3\<rparr>
      - length (c_items \<lparr>c_items = [7::int], c_capacity = 3\<rparr>)) \<le> INT_MAX"
    by (simp add: INT_MAX_def)
  have k2: "int (c_capacity \<lparr>c_items = [7, 8::int], c_capacity = 2\<rparr>
      - length (c_items \<lparr>c_items = [7, 8::int], c_capacity = 2\<rparr>)) \<le> INT_MAX"
    by (simp add: INT_MAX_def)
  have p: "mPopIndex (ring3 1 2147483644 3 [Some 3, Some 1, Some 2]) + int 2 \<le> INT_MAX"
    by (simp add: ring3_def INT_MAX_def)
  have d: "take 2 [1, 2, 3 :: int] = [1, 2]" "drop 2 [1, 2, 3 :: int] = [3]"
    by (simp_all add: eval_nat_numeral)
  have n: "min (c_capacity \<lparr>c_items = [7::int], c_capacity = 3\<rparr>
      - length (c_items \<lparr>c_items = [7::int], c_capacity = 3\<rparr>)) (length [1, 2, 3 :: int]) = 2"
    by simp
  note t1 = Pop_Multiple_pops_min [OF i k1, unfolded Let_def c n s d]
  note t2 = Pop_Multiple_pops_min [OF i k2]
  show ?thesis using i t1 t2 p by auto
qed

text \<open>Push/pop cycles on the empty queue of capacity 3 only move the indices.\<close>

lemma replicate_update_same: "(replicate n x)[i := x] = replicate n x"
proof (cases "i < n")
  case True
  then show ?thesis by (intro nth_equalityI) (auto simp: nth_list_update)
next
  case False
  then show ?thesis by (simp add: list_update_beyond)
qed

lemma empty_ring3_inv:
  assumes "0 \<le> p" "p < 2147483646"
  shows "queue_inv (ring3 p p 0 (replicate 3 None))"
  using assms by (simp add: queue_inv_def ring3_def Is_Allocated_def nullptr_def INT_MAX_def
      INT_MIN_def live_count_def size_q_def)

lemma empty_ring3_cycle:
  "popped (pushed v (ring3 p p 0 (replicate 3 None)))
   = ring3 ((p + 1) mod 2147483646) ((p + 1) mod 2147483646) 0 (replicate 3 None)"
  by (simp add: popped_def pushed_def ring3_def replicate_update_same del: replicate_Suc replicate.simps)

lemma empty_ring3_cycles:
  assumes "0 \<le> p" "p < 2147483646"
  shows "push_pop_cycles vs (ring3 p p 0 (replicate 3 None))
         = Returns (map (\<lambda>v. (True, Some v)) vs)
             (ring3 ((p + int (length vs)) mod 2147483646) ((p + int (length vs)) mod 2147483646) 0
                (replicate 3 None))"
  using assms
proof (induction vs arbitrary: p)
  case Nil
  then show ?case by simp
next
  case (Cons v vs)
  have i: "queue_inv (ring3 p p 0 (replicate 3 None))" by (rule empty_ring3_inv [OF Cons.prems])
  have e: "live_count (ring3 p p 0 (replicate 3 None)) = 0"
    by (simp add: live_count_def ring3_def)
  note s = cycle_step [OF i e, of v, unfolded empty_ring3_cycle]
  have p: "0 \<le> (p + 1) mod 2147483646" "(p + 1) mod 2147483646 < 2147483646" by simp_all
  have m: "((p + 1) mod 2147483646 + int (length vs)) mod 2147483646
      = (p + int (length (v # vs))) mod 2147483646"
    by (simp add: mod_simps algebra_simps)
  show ?case
    using s(1) s(2) Cons.IH [OF p] by (simp add: m del: replicate_Suc replicate.simps)
qed

text \<open>
  Claim C4 fails on the batch operations. With capacity 3, \<open>mIndexEnd\<close> is 2147483646, and
  2147483645 push/pop cycles take the allocated queue to the valid empty state with both
  indices at 2147483645. There \<open>Emplace_Multiple\<close> of three elements computes
  \<open>2147483645 + 3\<close> in \<open>Increase_Index\<close>, which overflows \<open>int\<close> before the comparison with
  \<open>mIndexEnd\<close>: the push index becomes \<open>-2147483648\<close>. After three single pushes
  \<open>Pop_Multiple\<close> does the same to the pop index. After one single push the sum
  \<open>mPopIndex + mCapacity\<close> in \<open>Emplace_Multiple\<close> overflows, the number of free slots
  comes out negative and the moves run past the span.
\<close>

theorem batch_operations_break_index_invariant:
  "Allocate fixed_allocator 4 4 3 Queue_default = Returns () (ring3 0 0 0 [None, None, None])
   \<and> push_pop_cycles (replicate 2147483645 0) (ring3 0 0 0 [None, None, None])
       = Returns (replicate 2147483645 (True, Some 0)) (ring3 2147483645 2147483645 0 [None, None, None])
   \<and> queue_inv (ring3 2147483645 2147483645 0 [None, None, None])
   \<and> Emplace_Multiple [1, 2, 3] (ring3 2147483645 2147483645 0 [None, None, None])
       = Returns [] (ring3 (- 2147483648) 2147483645 3 [Some 2, Some 3, Some 1])
   \<and> \<not> 0 \<le> mPushIndex (ring3 (- 2147483648) 2147483645 3 [Some 2, Some 3, Some 1])
   \<and> \<not> queue_inv (ring3 (- 2147483648) 2147483645 3 [Some 2, Some 3, Some 1])
   \<and> run_ops [Push 1, Push 2, Push 3] (ring3 2147483645 2147483645 0 [None, None, None])
       = Returns [Pushed True, Pushed True, Pushed True] (ring3 2 2147483645 3 [Some 2, Some 3, Some 1])
   \<and> queue_inv (ring3 2 2147483645 3 [Some 2, Some 3, Some 1])
   \<and> Pop_Multiple \<lparr>c_items = [], c_capacity = 3\<rparr> (ring3 2 2147483645 3 [Some 2, Some 3, Some 1])
       = Returns \<lparr>c_items = [1, 2, 3], c_capacity = 3\<rparr> (ring3 2 (- 2147483648) 0 [None, None, None])
   \<and> \<not> queue_inv (ring3 2 (- 2147483648) 0 [None, None, None])
   \<and> run_ops [Push 9] (ring3 2147483645 2147483645 0 [None, None, None])
       = Returns [Pushed True] (ring3 0 2147483645 1 [None, None, Some 9])
   \<and> queue_inv (ring3 0 2147483645 1 [None, None, Some 9])
   \<and> Emplace_Multiple [7, 8] (ring3 0 2147483645 1 [None, None, Some 9]) = Undefined_Behaviour"
proof -
  have al: "Allocate fixed_allocator 4 4 3 Queue_default = Returns () (ring3 0 0 0 [None, None, None])"
    by (simp add: Allocate_def fixed_allocator_def Queue_default_def Is_Allocated_def nullptr_def
        Let_def INT_MAX_def mul32_def int32_def ring3_def eval_nat_numeral)
  have n3: "replicate 3 None = [None, None, None]" by (simp add: eval_nat_numeral)
  have r: "push_pop_cycles (replicate 2147483645 0) (ring3 0 0 0 [None, None, None])
       = Returns (replicate 2147483645 (True, Some 0)) (ring3 2147483645 2147483645 0 [None, None, None])"
    using empty_ring3_cycles [of 0 "replicate 2147483645 0"] unfolding n3 by simp
  have a: "queue_inv (ring3 2147483645 2147483645 0 [None, None, None])"
    "queue_inv (ring3 2 2147483645 3 [Some 2, Some 3, Some 1])"
    "queue_inv (ring3 0 2147483645 1 [None, None, Some 9])"
    by (simp_all add: concrete_defs)
  have b: "\<not> queue_inv (ring3 (- 2147483648) 2147483645 3 [Some 2, Some 3, Some 1])"
    "\<not> queue_inv (ring3 2 (- 2147483648) 0 [None, None, None])"
    "\<not> 0 \<le> mPushIndex (ring3 (- 2147483648) 2147483645 3 [Some 2, Some 3, Some 1])"
    by (simp_all add: queue_inv_def ring3_def)
  have c: "Emplace_Multiple [1, 2, 3] (ring3 2147483645 2147483645 0 [None, None, None])
       = Returns [] (ring3 (- 2147483648) 2147483645 3 [Some 2, Some 3, Some 1])"
    by code_simp
  have d: "Pop_Multiple \<lparr>c_items = [], c_capacity = 3\<rparr> (ring3 2 2147483645 3 [Some 2, Some 3, Some 1])
       = Returns \<lparr>c_items = [1, 2, 3], c_capacity = 3\<rparr> (ring3 2 (- 2147483648) 0 [None, None, None])"
    by code_simp
  have e: "Emplace_Multiple [7, 8] (ring3 0 2147483645 1 [None, None, Some 9]) = Undefined_Behaviour"
    by code_simp
  have f: "run_ops [Push 1, Push 2, Push 3] (ring3 2147483645 2147483645 0 [None, None, None])
       = Returns [Pushed True, Pushed True, Pushed True] (ring3 2 2147483645 3 [Some 2, Some 3, Some 1])"
    by code_simp
  have g: "run_ops [Push 9] (ring3 2147483645 2147483645 0 [None, None, None])
       = Returns [Pushed True] (ring3 0 2147483645 1 [None, None, Some 9])"
    by code_simp
  show ?thesis using al r a b c d e f g by blast
qed

text \<open>
  What does hold of the invariants: the single-element operations preserve them, and the
  batch operations do wherever their sums stay within \<open>int\<close>.
\<close>

lemma invariants_preserved_without_overflow:
  assumes "queue_inv q"
  shows "\<forall>b q'. Emplace v q = Returns b q' \<longrightarrow> queue_inv q'"
    and "\<forall>r q'. Pop q = Returns r q' \<longrightarrow> queue_inv q'"
    and "int (length aSpan) \<le> INT_MAX \<Longrightarrow> mPopIndex q + mCapacity q \<le> INT_MAX \<Longrightarrow>
         mPushIndex q + min (int (length aSpan)) (mCapacity q - live_count q) \<le> INT_MAX \<Longrightarrow>
         \<forall>r q'. Emplace_Multiple aSpan q = Returns r q' \<longrightarrow> queue_inv q'"
    and "int (c_capacity aPopped - length (c_items aPopped)) \<le> INT_MAX \<Longrightarrow>
         mPopIndex q + min (int (c_capacity aPopped - length (c_items aPopped))) (live_count q) \<le> INT_MAX \<Longrightarrow>
         \<forall>r q'. Pop_Multiple aPopped q = Returns r q' \<longrightarrow> queue_inv q'"
proof -
  note c = inv_indices [OF assms]
  show "\<forall>b q'. Emplace v q = Returns b q' \<longrightarrow> queue_inv q'"
    using assms pushed_inv [OF assms, of v] by (auto simp: Emplace_inv [OF assms] split: if_splits)
  show "\<forall>r q'. Pop q = Returns r q' \<longrightarrow> queue_inv q'"
    using assms popped_inv [OF assms] by (auto simp: Pop_inv [OF assms] split: if_splits)
  show "\<forall>r q'. Emplace_Multiple aSpan q = Returns r q' \<longrightarrow> queue_inv q'"
    if h: "int (length aSpan) \<le> INT_MAX" "mPopIndex q + mCapacity q \<le> INT_MAX"
      "mPushIndex q + min (int (length aSpan)) (mCapacity q - live_count q) \<le> INT_MAX"
  proof -
    let ?n = "min (int (length aSpan)) (mCapacity q - live_count q)"
    have "int (length (take (nat ?n) aSpan)) \<le> mCapacity q - live_count q" using c by simp
    from pushed_many_inv [OF assms this] show ?thesis
      by (simp add: Emplace_Multiple_inv [OF assms h])
  qed
  show "\<forall>r q'. Pop_Multiple aPopped q = Returns r q' \<longrightarrow> queue_inv q'"
    if h: "int (c_capacity aPopped - length (c_items aPopped)) \<le> INT_MAX"
      "mPopIndex q + min (int (c_capacity aPopped - length (c_items aPopped))) (live_count q) \<le> INT_MAX"
  proof -
    let ?n = "min (int (c_capacity aPopped - length (c_items aPopped))) (live_count q)"
    have n: "nat ?n \<le> nat (live_count q)" "int (nat ?n) = ?n" using c by simp_all
    have "mPopIndex q + int (nat ?n) \<le> INT_MAX" unfolding n(2) by (rule h(2))
    from popped_many_inv [OF assms n(1) this] show ?thesis
      by (simp add: Pop_Multiple_inv [OF assms h(1)])
  qed
qed

end
